theory Spec2Isabelle
  imports Main "HOL-Library.Sublist"
begin

section \<open>Strings of the Python source\<close>

text \<open>
  A Python \<open>str\<close> is modelled as a \<open>string\<close>; a character is a code point below 256.
  The two characters that cannot be written inside a string literal get names.
\<close>

abbreviation DQ :: char where "DQ \<equiv> CHR 0x22"

abbreviation NL :: char where "NL \<equiv> CHR 0x0A"

text \<open>
  \<open>str.isspace\<close> on one character, which is also the class \<open>\s\<close> of \<open>re\<close> on a \<open>str\<close>
  pattern and the set \<open>str.strip()\<close> removes: TAB, LF, VT, FF, CR, the separators
  0x1C to 0x1F, the blank, NEL (0x85) and the no-break space (0xA0).
\<close>

definition isspace :: "char \<Rightarrow> bool" where
  "isspace c = (c \<in> set [CHR 0x09, CHR 0x0A, CHR 0x0B, CHR 0x0C, CHR 0x0D,
                          CHR 0x1C, CHR 0x1D, CHR 0x1E, CHR 0x1F, CHR 0x20,
                          CHR 0x85, CHR 0xA0])"

text \<open>\<open>sub in s\<close>: \<open>sub\<close> occurs in \<open>s\<close> as a contiguous run.\<close>

fun py_in :: "string \<Rightarrow> string \<Rightarrow> bool" where
  "py_in sub [] = (sub = [])"
| "py_in sub (c # cs) = (prefix sub (c # cs) \<or> py_in sub cs)"

text \<open>
  \<open>s.find(sub)\<close>: the index of the first occurrence, or \<open>-1\<close>.
\<close>

fun find :: "string \<Rightarrow> string \<Rightarrow> int" where
  "find [] sub = (if sub = [] then 0 else -1)"
| "find (c # cs) sub =
     (if prefix sub (c # cs) then 0
      else (let k = find cs sub in if k < 0 then -1 else k + 1))"

text \<open>
  \<open>s[k:]\<close>: a negative \<open>k\<close> counts from the end and is clamped at the start of the string.
\<close>

definition slice_from :: "string \<Rightarrow> int \<Rightarrow> string" where
  "slice_from s k =
     (if k < 0 then drop (nat (int (length s) + k)) s else drop (nat k) s)"

text \<open>
  \<open>s.replace(old, new)\<close>: every occurrence of \<open>old\<close>, found from the left and not
  overlapping, becomes \<open>new\<close>. An empty \<open>old\<close> matches before every character and at the
  end.
\<close>

function replace :: "string \<Rightarrow> string \<Rightarrow> string \<Rightarrow> string" where
  "replace s old new =
     (if old = [] then new @ concat (map (\<lambda>c. c # new) s)
      else if prefix old s then new @ replace (drop (length old) s) old new
      else (case s of [] \<Rightarrow> [] | c # cs \<Rightarrow> c # replace cs old new))"
  by pat_completeness auto
termination
  by (relation "measure (\<lambda>(s, old, new). length s)") (auto simp: prefix_def)

declare replace.simps [simp del]

text \<open>\<open>s.strip()\<close>: the whitespace at both ends is removed.\<close>

definition strip :: "string \<Rightarrow> string" where
  "strip s = rev (dropWhile isspace (rev (dropWhile isspace s)))"

section \<open>The regular expressions of \<open>preprocess_md\<close>\<close>

text \<open>
  The three patterns of the source use literals, the greedy repetitions \<open>\s*\<close> and
  \<open>\s+\<close>, and one capturing group \<open>(.*)\<close>; a non-capturing group \<open>(?:title)\<close> around a
  literal is that literal. \<open>.\<close> is any character but the line feed.
\<close>

datatype cclass = Space | Dot

fun in_class :: "cclass \<Rightarrow> char \<Rightarrow> bool" where
  "in_class Space c = isspace c"
| "in_class Dot c = (c \<noteq> NL)"

datatype re_item = Lit string | Star cclass | Plus cclass | GroupStar cclass

text \<open>The group has matched the empty string and the rest of the pattern went on.\<close>

definition empty_group :: "(nat \<times> string option) option \<Rightarrow> (nat \<times> string option) option" where
  "empty_group m = (case m of None \<Rightarrow> None | Some (n, g) \<Rightarrow> Some (n, Some []))"

text \<open>
  \<open>re_match p s\<close> matches the pattern at the start of \<open>s\<close> the way the backtracking
  matcher of \<open>re\<close> does: a repetition takes one more character whenever it can and gives
  it back only when the rest of the pattern fails after it. The result is the number of
  characters matched and the text of the group, when the group took part.
\<close>

fun re_match :: "re_item list \<Rightarrow> string \<Rightarrow> (nat \<times> string option) option" where
  "re_match [] s = Some (0, None)"
| "re_match (Lit l # r) s =
     (if prefix l s
      then (case re_match r (drop (length l) s) of
              None \<Rightarrow> None
            | Some (n, g) \<Rightarrow> Some (length l + n, g))
      else None)"
| "re_match (Star k # r) [] = re_match r []"
| "re_match (Star k # r) (c # cs) =
     (if in_class k c
      then (case re_match (Star k # r) cs of
              Some (n, g) \<Rightarrow> Some (Suc n, g)
            | None \<Rightarrow> re_match r (c # cs))
      else re_match r (c # cs))"
| "re_match (Plus k # r) [] = None"
| "re_match (Plus k # r) (c # cs) =
     (if in_class k c
      then (case re_match (Star k # r) cs of
              Some (n, g) \<Rightarrow> Some (Suc n, g)
            | None \<Rightarrow> None)
      else None)"
| "re_match (GroupStar k # r) [] = empty_group (re_match r [])"
| "re_match (GroupStar k # r) (c # cs) =
     (if in_class k c
      then (case re_match (GroupStar k # r) cs of
              Some (n, g) \<Rightarrow> Some (Suc n, Some (c # (case g of None \<Rightarrow> [] | Some t \<Rightarrow> t)))
            | None \<Rightarrow> empty_group (re_match r (c # cs)))
      else empty_group (re_match r (c # cs)))"

text \<open>
  \<open>re.search(pat, s)\<close>: the match at the leftmost position that has one, as the matched
  text \<open>m[0]\<close> and the group \<open>m[1]\<close> (\<open>None\<close> when no group took part, which is
  \<open>m.lastindex is None\<close>).
\<close>

fun re_search :: "re_item list \<Rightarrow> string \<Rightarrow> (string \<times> string option) option" where
  "re_search p [] =
     (case re_match p [] of None \<Rightarrow> None | Some (n, g) \<Rightarrow> Some ([], g))"
| "re_search p (c # cs) =
     (case re_match p (c # cs) of
        Some (n, g) \<Rightarrow> Some (take n (c # cs), g)
      | None \<Rightarrow> re_search p cs)"

section \<open>The data model\<close>

type_synonym errstr = string

text \<open>
  The \<open>Result\<close> of the \<open>result\<close> package, and the exceptions the program can raise.
  \<open>OSError p\<close> stands for \<open>OSError\<close> and its subclasses (\<open>FileNotFoundError\<close>,
  \<open>NotADirectoryError\<close>, \<open>IsADirectoryError\<close>, \<open>PermissionError\<close>) raised for the path
  \<open>p\<close>, and \<open>ValueError\<close> for the \<open>JSONDecodeError\<close> of \<open>json.loads\<close>.
\<close>

datatype ('e, 'a) Result = Ok 'a | Err 'e

datatype exn = UnwrapError errstr | TypeError | AttributeError | OSError string | ValueError

text \<open>
  A call of the program either raises (\<open>Inl\<close>) or returns (\<open>Inr\<close>). \<open>r.unwrap()\<close>
  raises on an \<open>Err\<close>.
\<close>

fun unwrap :: "(errstr, 'a) Result \<Rightarrow> exn + 'a" where
  "unwrap (Ok v) = Inr v"
| "unwrap (Err e) = Inl (UnwrapError e)"

text \<open>
  Two classes of the source name a field \<open>include_before\<close> and two name a field \<open>path\<close>:
  the fields of \<open>Config\<close> (file names) end in \<open>_file\<close> here, and the path of a
  \<open>FileTree\<close> is \<open>tree_path\<close>.
\<close>

record Config =
  posts_dir :: "string option"
  include_before_file :: "string option"
  include_after_file :: "string option"
  static_src :: "string option"
  static_dest :: "string option"

record FileMetadata =
  title :: string
  desc :: string

record File =
  path :: string
  metadata :: FileMetadata
  is_post :: bool
  md :: string
  html :: string

datatype FileTree = FileTree (tree_path: string) (files: "File list") (trees: "FileTree list")

text \<open>
  \<open>File\<close> objects are shared: the lists of \<open>State\<close> hold references to the objects
  the loops mutate, and \<open>preprocess_md\<close> receives the \<open>metadata\<close> object of one of
  them while it reads \<open>state.posts\<close>. The store maps an address to the object there; a
  \<open>FileMetadata\<close> object belongs to exactly one \<open>File\<close> (its \<open>default_factory\<close> makes a
  new one for each), so it is addressed through its \<open>File\<close>.
\<close>

type_synonym addr = nat

type_synonym store = "File list"

record State =
  posts :: "addr list"
  static_pages :: "addr list"
  include_before :: string
  include_after :: string

definition set_title :: "store \<Rightarrow> addr \<Rightarrow> string \<Rightarrow> store" where
  "set_title h a v = h[a := (h ! a)\<lparr>metadata := (metadata (h ! a))\<lparr>title := v\<rparr>\<rparr>]"

definition set_desc :: "store \<Rightarrow> addr \<Rightarrow> string \<Rightarrow> store" where
  "set_desc h a v = h[a := (h ! a)\<lparr>metadata := (metadata (h ! a))\<lparr>desc := v\<rparr>\<rparr>]"

definition set_md :: "store \<Rightarrow> addr \<Rightarrow> string \<Rightarrow> store" where
  "set_md h a v = h[a := (h ! a)\<lparr>md := v\<rparr>]"

definition set_html :: "store \<Rightarrow> addr \<Rightarrow> string \<Rightarrow> store" where
  "set_html h a v = h[a := (h ! a)\<lparr>html := v\<rparr>]"

section \<open>\<open>preprocess_md\<close>\<close>

text \<open>The patterns of \<open>title\<close>, \<open>desc\<close> and \<open>posts\<close>, as the source writes them.\<close>

definition title_pat :: "re_item list" where
  "title_pat = [Lit ''{{'', Star Space, Lit ''title'', Plus Space, Lit [DQ],
                GroupStar Dot, Lit [DQ], Star Space, Lit ''}}'']"

definition desc_pat :: "re_item list" where
  "desc_pat = [Lit ''{{'', Star Space, Lit ''desc'', Plus Space, Lit [DQ],
               GroupStar Dot, Lit [DQ], Star Space, Lit ''}}'']"

definition posts_pat :: "re_item list" where
  "posts_pat = [Lit ''{{'', Star Space, Lit ''posts'', Star Space, Lit ''}}'']"

definition invalid_match :: "string \<Rightarrow> errstr" where
  "invalid_match kw = ''Invalid match on '' @ [CHR 0x27] @ kw @ [CHR 0x27]"

text \<open>
  The nested functions \<open>title\<close>, \<open>desc\<close> and \<open>posts\<close>. Each searches the variable \<open>md\<close>
  of the enclosing call (\<open>doc\<close> here) and edits its own argument \<open>s\<close>; \<open>a\<close> is the
  address of the \<open>File\<close> whose metadata the call received. \<open>m.lastindex != 1\<close> holds
  when the group did not take part.
\<close>

definition title_fn :: "store \<Rightarrow> addr \<Rightarrow> string \<Rightarrow> string \<Rightarrow> store \<times> (errstr, string) Result" where
  "title_fn h a doc s =
     (case re_search title_pat doc of
        None \<Rightarrow> (h, Err (invalid_match ''title''))
      | Some (m0, None) \<Rightarrow> (h, Err (invalid_match ''title''))
      | Some (m0, Some m1) \<Rightarrow>
          (set_title h a m1, Ok (''# '' @ m1 @ [NL] @ replace s m0 [])))"

definition desc_fn :: "store \<Rightarrow> addr \<Rightarrow> string \<Rightarrow> string \<Rightarrow> store \<times> (errstr, string) Result" where
  "desc_fn h a doc s =
     (case re_search desc_pat doc of
        None \<Rightarrow> (h, Err (invalid_match ''desc''))
      | Some (m0, None) \<Rightarrow> (h, Err (invalid_match ''desc''))
      | Some (m0, Some m1) \<Rightarrow> (set_desc h a m1, Ok (replace s m0 [])))"

text \<open>The href of a post: its path from the first slash on, \<open>.md\<close> replaced.\<close>

definition post_url :: "string \<Rightarrow> string" where
  "post_url p = replace (slice_from p (find p ''/'')) ''.md'' ''.html''"

text \<open>What one round of the loop over \<open>state.posts\<close> appends to \<open>posts_html\<close>.\<close>

definition post_entry :: "File \<Rightarrow> string" where
  "post_entry p =
     ''<div class='' @ [DQ] @ ''post'' @ [DQ] @ ''>'' @ [NL] @
     ''<div class='' @ [DQ] @ ''post-heading'' @ [DQ] @ ''>'' @ [NL] @
     ''<a href='' @ [DQ] @ post_url (path p) @ [DQ] @ ''>'' @
       title (metadata p) @ ''</a>'' @ [NL] @
     ''</div>'' @ [NL] @
     ''<div class='' @ [DQ] @ ''post-desc'' @ [DQ] @ ''>'' @ [NL] @
     desc (metadata p) @ [NL] @
     ''</div>'' @ [NL] @
     ''</div>'' @ [NL]"

definition posts_html :: "State \<Rightarrow> store \<Rightarrow> string" where
  "posts_html st h =
     ''<div class='' @ [DQ] @ ''posts'' @ [DQ] @ ''>'' @
     foldl (\<lambda>acc p. acc @ post_entry (h ! p)) [] (posts st) @
     ''</div>''"

definition posts_fn :: "State \<Rightarrow> store \<Rightarrow> string \<Rightarrow> string \<Rightarrow> (errstr, string) Result" where
  "posts_fn st h doc s =
     (case re_search posts_pat doc of
        None \<Rightarrow> Err (invalid_match ''posts'')
      | Some (m0, g) \<Rightarrow> Ok (replace s m0 (posts_html st h)))"

text \<open>The four \<open>if\<close> statements of \<open>preprocess_md\<close>, one definition each.\<close>

definition has_title :: "string \<Rightarrow> bool" where
  "has_title doc = (py_in ''{{ title'' doc \<or> py_in ''{{title'' doc)"

definition has_desc :: "string \<Rightarrow> bool" where
  "has_desc doc = (py_in ''{{ desc'' doc \<or> py_in ''{{desc'' doc)"

definition has_posts :: "string \<Rightarrow> bool" where
  "has_posts doc = (py_in ''{{ posts'' doc \<or> py_in ''{{posts'' doc)"

definition title_step :: "store \<Rightarrow> addr \<Rightarrow> string \<Rightarrow> store \<times> (exn + string)" where
  "title_step h a doc =
     (if has_title doc
      then (case title_fn h a doc doc of (h1, r) \<Rightarrow> (h1, unwrap r))
      else (h, Inr doc))"

definition desc_step :: "store \<Rightarrow> addr \<Rightarrow> string \<Rightarrow> store \<times> (exn + string)" where
  "desc_step h a doc =
     (if has_desc doc
      then (case desc_fn h a doc doc of (h1, r) \<Rightarrow> (h1, unwrap r))
      else (h, Inr doc))"

definition posts_step :: "State \<Rightarrow> store \<Rightarrow> string \<Rightarrow> exn + string" where
  "posts_step st h doc =
     (if has_posts doc then unwrap (posts_fn st h doc doc) else Inr doc)"

definition toc_step :: "string \<Rightarrow> string" where
  "toc_step doc = (if py_in ''[toc]'' doc then replace doc ''[toc]'' ''[TOC]'' else doc)"

text \<open>
  \<open>preprocess_md(state, file_metadata, md)\<close>: the store after the call, and either the
  exception an \<open>unwrap\<close> raised or the \<open>Ok\<close> the call returned.
\<close>

definition preprocess_md ::
  "State \<Rightarrow> store \<Rightarrow> addr \<Rightarrow> string \<Rightarrow> store \<times> (exn + (errstr, string) Result)" where
  "preprocess_md st h a doc =
     (case title_step h a doc of
        (h1, Inl e) \<Rightarrow> (h1, Inl e)
      | (h1, Inr d1) \<Rightarrow>
     (case desc_step h1 a d1 of
        (h2, Inl e) \<Rightarrow> (h2, Inl e)
      | (h2, Inr d2) \<Rightarrow>
     (case posts_step st h2 d2 of
        Inl e \<Rightarrow> (h2, Inl e)
      | Inr d3 \<Rightarrow> (h2, Inr (Ok (strip (toc_step d3)))))))"

section \<open>\<open>preprocess_pages\<close>\<close>

text \<open>
  The loop \<open>for p in ...: p.md = preprocess_md(state, p.metadata, p.md).unwrap()\<close> over a
  list of references; an exception ends it and is the second component.
\<close>

fun preprocess_each :: "State \<Rightarrow> store \<Rightarrow> addr list \<Rightarrow> store \<times> exn option" where
  "preprocess_each st h [] = (h, None)"
| "preprocess_each st h (p # ps) =
     (case preprocess_md st h p (md (h ! p)) of
        (h1, Inl e) \<Rightarrow> (h1, Some e)
      | (h1, Inr r) \<Rightarrow>
          (case unwrap r of
             Inl e \<Rightarrow> (h1, Some e)
           | Inr d \<Rightarrow> preprocess_each st (set_md h1 p d) ps))"

definition preprocess_pages :: "State \<Rightarrow> store \<Rightarrow> FileTree \<Rightarrow> store \<times> exn option" where
  "preprocess_pages st h tree = preprocess_each st h (posts st @ static_pages st)"

section \<open>The world outside the program\<close>

text \<open>
  \<open>os.path.join(a, b)\<close> on POSIX: an absolute \<open>b\<close> replaces \<open>a\<close>; otherwise one slash
  separates them unless \<open>a\<close> is empty or ends in one.
\<close>

definition path_join :: "string \<Rightarrow> string \<Rightarrow> string" where
  "path_join a b =
     (if prefix ''/'' b then b
      else if a = [] \<or> last a = CHR ''/'' then a @ b
      else a @ ''/'' @ b)"

text \<open>
  What \<open>listdir\<close> and \<open>isdir\<close> see below a path: a directory with its entries in the
  order \<open>listdir\<close> gives them, or something that is not a directory.
\<close>

datatype fsnode = RegularFile | Directory "(string \<times> fsnode) list"

text \<open>
  What \<open>json.loads\<close> returns: a dict, given by its items, or a value that is not a dict,
  given by the message of the \<open>TypeError\<close> that indexing it with a string raises. The
  values of the dict are strings or \<open>null\<close>, as \<open>Config\<close> declares its fields.
\<close>

datatype json = JObject "(string \<times> string option) list" | JOther errstr

text \<open>What a run does to the world, in order.\<close>

datatype effect = Print string | Mkdir string | Write string string | Copytree string string

text \<open>
  The world of a run. The program looks at its source directory twice, and nothing makes
  the two looks agree but the world itself: \<open>srcdir_at_config\<close> is what stands there when
  \<open>read_config\<close> opens \<open>config.json\<close> in it (line 111 of \<open>main\<close>), \<open>srcdir_node\<close>
  what stands there when \<open>build_file_tree\<close> lists it (line 122), each \<open>None\<close> when nothing
  stands there. In a world that nobody changes during the run the two are equal. The rest:
  the text \<open>open(path).read()\<close> gives (\<open>None\<close> when it raises), \<open>json.loads\<close> (\<open>None\<close>
  when it raises), \<open>markdown.markdown\<close> with the extensions of the source, and the
  exception with which the world answers an attempt to make a directory, write a file or
  copy a tree, if it does.
\<close>

record World =
  srcdir_at_config :: "fsnode option"
  srcdir_node :: "fsnode option"
  read_file :: "string \<Rightarrow> string option"
  json_loads :: "string \<Rightarrow> json option"
  markdown :: "string \<Rightarrow> string"
  fails :: "effect \<Rightarrow> exn option"

text \<open>Nobody changes the source directory between the two looks.\<close>

definition unchanged :: "World \<Rightarrow> bool" where
  "unchanged w = (srcdir_node w = srcdir_at_config w)"

section \<open>\<open>read_config\<close>\<close>

text \<open>\<open>Config()\<close>, and \<open>setattr(c, name, v)\<close> for the names \<open>read_config\<close> sets.\<close>

definition new_Config :: Config where
  "new_Config = \<lparr>posts_dir = None, include_before_file = None, include_after_file = None,
                  static_src = None, static_dest = None\<rparr>"

definition setattr :: "Config \<Rightarrow> string \<Rightarrow> string option \<Rightarrow> Config" where
  "setattr c name v =
     (if name = ''posts_dir'' then c\<lparr>posts_dir := v\<rparr>
      else if name = ''include_before'' then c\<lparr>include_before_file := v\<rparr>
      else if name = ''include_after'' then c\<lparr>include_after_file := v\<rparr>
      else if name = ''static_src'' then c\<lparr>static_src := v\<rparr>
      else if name = ''static_dest'' then c\<lparr>static_dest := v\<rparr>
      else c)"

definition props :: "string list" where
  "props = [''posts dir'', ''include before'', ''include after'', ''static src'', ''static dest'']"

text \<open>The loop over \<open>props\<close>: a key that is missing raises \<open>KeyError\<close> and is passed over.\<close>

definition config_of :: "(string \<times> string option) list \<Rightarrow> Config" where
  "config_of j =
     foldl (\<lambda>c prop. case map_of j prop of
                         None \<Rightarrow> c
                       | Some v \<Rightarrow> setattr c (replace prop '' '' ''_'') v)
       new_Config props"

definition couldnt_find :: "string \<Rightarrow> errstr" where
  "couldnt_find p = ''Couldn'' @ [CHR 0x27] @ ''t find '' @ p @ ''. Does it exist?''"

text \<open>
  \<open>read_config(root)\<close>. \<open>open(path)\<close> raises \<open>FileNotFoundError\<close>, which becomes an
  \<open>Err\<close>, when the root or the file in it is missing; it raises \<open>NotADirectoryError\<close>
  when the root is not a directory and \<open>IsADirectoryError\<close> when \<open>config.json\<close> is one,
  and neither is caught. A value that is not a dict raises \<open>TypeError\<close> at the first
  \<open>j[prop]\<close>, which becomes an \<open>Err\<close>.
\<close>

definition read_config :: "World \<Rightarrow> string \<Rightarrow> exn + (errstr, Config) Result" where
  "read_config w root =
     (case srcdir_at_config w of
        None \<Rightarrow> Inr (Err (couldnt_find (path_join root ''config.json'')))
      | Some RegularFile \<Rightarrow> Inl (OSError (path_join root ''config.json''))
      | Some (Directory entries) \<Rightarrow>
          (case map_of entries ''config.json'' of
             None \<Rightarrow> Inr (Err (couldnt_find (path_join root ''config.json'')))
           | Some (Directory sub) \<Rightarrow> Inl (OSError (path_join root ''config.json''))
           | Some RegularFile \<Rightarrow>
               (case read_file w (path_join root ''config.json'') of
                  None \<Rightarrow> Inl (OSError (path_join root ''config.json''))
                | Some text \<Rightarrow>
                    (case json_loads w text of
                       None \<Rightarrow> Inl ValueError
                     | Some (JOther m) \<Rightarrow> Inr (Err (''Failed to read config: '' @ m))
                     | Some (JObject j) \<Rightarrow> Inr (Ok (config_of j))))))"

section \<open>\<open>load_before_after_files\<close>\<close>

text \<open>
  The body of the \<open>try\<close>: the state when it ends, and the exception that ended it.
\<close>

definition load_before_after_try :: "World \<Rightarrow> string \<Rightarrow> Config \<Rightarrow> State \<Rightarrow> State \<times> exn option" where
  "load_before_after_try w root config st =
     (case (case include_before_file config of
              None \<Rightarrow> (st, None)
            | Some f \<Rightarrow>
                (case read_file w (path_join root f) of
                   None \<Rightarrow> (st, Some (OSError (path_join root f)))
                 | Some t \<Rightarrow> (st\<lparr>include_before := t\<rparr>, None))) of
        (st1, Some e) \<Rightarrow> (st1, Some e)
      | (st1, None) \<Rightarrow>
          (case include_after_file config of
             None \<Rightarrow> (st1, None)
           | Some f \<Rightarrow>
               (case read_file w (path_join root f) of
                  None \<Rightarrow> (st1, Some (OSError (path_join root f)))
                | Some t \<Rightarrow> (st1\<lparr>include_after := t\<rparr>, None))))"

text \<open>
  \<open>except Exception as e: pass\<close>: whatever the body raised, the call returns. The second
  component is the exception that leaves the call.
\<close>

definition load_before_after_files :: "World \<Rightarrow> string \<Rightarrow> Config \<Rightarrow> State \<Rightarrow> State \<times> exn option" where
  "load_before_after_files w root config st =
     (case load_before_after_try w root config st of
        (st1, Some e) \<Rightarrow> (st1, None)
      | (st1, None) \<Rightarrow> (st1, None))"

section \<open>\<open>build_file_tree\<close>\<close>

definition excluded :: "Config \<Rightarrow> string option list" where
  "excluded config =
     [Some ''config.json'', include_before_file config, include_after_file config,
      static_src config]"

text \<open>\<open>File(path=p, is_post=b)\<close>: the other fields take their defaults.\<close>

definition new_File :: "string \<Rightarrow> bool \<Rightarrow> File" where
  "new_File p b =
     \<lparr>path = p, metadata = \<lparr>title = [], desc = []\<rparr>, is_post = b, md = [], html = []\<rparr>"

definition not_a_directory :: "string \<Rightarrow> errstr" where
  "not_a_directory dir = ''[Errno 20] Not a directory: '' @ [CHR 0x27] @ dir @ [CHR 0x27]"

text \<open>
  \<open>build_file_tree(dir, root, config, tree)\<close> at a place of the file system, and its loop
  over \<open>dir_files\<close>, which carries the tree built so far. \<open>listdir\<close> of something that is
  not a directory raises \<open>NotADirectoryError\<close>, which becomes an \<open>Err\<close>;
  \<open>path_join(root, config.posts_dir)\<close> raises \<open>TypeError\<close> when no posts directory is
  configured.
\<close>

fun build_file_tree ::
    "string \<Rightarrow> string \<Rightarrow> Config \<Rightarrow> FileTree option \<Rightarrow> fsnode \<Rightarrow> exn + (errstr, FileTree) Result"
  and build_loop ::
    "string \<Rightarrow> string \<Rightarrow> Config \<Rightarrow> FileTree \<Rightarrow> (string \<times> fsnode) list \<Rightarrow> exn + (errstr, FileTree) Result"
where
  "build_file_tree dir root config tree RegularFile = Inr (Err (not_a_directory dir))"
| "build_file_tree dir root config tree (Directory dir_files) =
     build_loop dir root config
       (case tree of None \<Rightarrow> FileTree dir [] [] | Some t \<Rightarrow> t) dir_files"
| "build_loop dir root config tree [] = Inr (Ok tree)"
| "build_loop dir root config tree ((fname, node) # rest) =
     (if Some fname \<in> set (excluded config) then build_loop dir root config tree rest
      else
        (case node of
           Directory sub \<Rightarrow>
             (case build_file_tree (path_join dir fname) root config
                     (Some (FileTree (path_join dir fname) [] [])) (Directory sub) of
                Inl e \<Rightarrow> Inl e
              | Inr (Err e) \<Rightarrow> Inr (Err e)
              | Inr (Ok t) \<Rightarrow>
                  build_loop dir root config
                    (FileTree (tree_path tree) (files tree) (trees tree @ [t])) rest)
         | RegularFile \<Rightarrow>
             (case posts_dir config of
                None \<Rightarrow> Inl TypeError
              | Some pd \<Rightarrow>
                  build_loop dir root config
                    (FileTree (tree_path tree)
                       (files tree @ [new_File (path_join dir fname) (dir = path_join root pd)])
                       (trees tree))
                    rest)))"

section \<open>\<open>process_pages\<close>\<close>

definition load_md_file :: "World \<Rightarrow> string \<Rightarrow> (errstr, string) Result" where
  "load_md_file w p =
     (case read_file w p of
        Some t \<Rightarrow> Ok t
      | None \<Rightarrow> Err (''Failed to compile file '' @ p))"

text \<open>
  The loop over \<open>tree.files\<close>. The tree is not read again after \<open>process_pages\<close>, so a
  \<open>File\<close> enters the store when the loop reaches it: its address is the next free one.
\<close>

fun process_files :: "World \<Rightarrow> State \<Rightarrow> store \<Rightarrow> File list \<Rightarrow> State \<times> store \<times> exn option" where
  "process_files w st h [] = (st, h, None)"
| "process_files w st h (file # rest) =
     (let a = length h;
          h1 = h @ [file];
          st1 = (if is_post file then st\<lparr>posts := posts st @ [a]\<rparr>
                 else st\<lparr>static_pages := static_pages st @ [a]\<rparr>)
      in case unwrap (load_md_file w (path file)) of
           Inl e \<Rightarrow> (st1, h1, Some e)
         | Inr t \<Rightarrow> process_files w st1 (set_md h1 a t) rest)"

fun process_pages :: "World \<Rightarrow> State \<Rightarrow> store \<Rightarrow> FileTree \<Rightarrow> State \<times> store \<times> exn option"
  and process_subtrees :: "World \<Rightarrow> State \<Rightarrow> store \<Rightarrow> FileTree list \<Rightarrow> State \<times> store \<times> exn option"
where
  "process_pages w st h (FileTree p fs ts) =
     (case process_files w st h fs of
        (st1, h1, Some e) \<Rightarrow> (st1, h1, Some e)
      | (st1, h1, None) \<Rightarrow> process_subtrees w st1 h1 ts)"
| "process_subtrees w st h [] = (st, h, None)"
| "process_subtrees w st h (t # ts) =
     (case process_pages w st h t of
        (st1, h1, Some e) \<Rightarrow> (st1, h1, Some e)
      | (st1, h1, None) \<Rightarrow> process_subtrees w st1 h1 ts)"

section \<open>\<open>compile_files\<close>, \<open>write_files\<close> and \<open>main\<close>\<close>

definition render_md :: "World \<Rightarrow> string \<Rightarrow> (errstr, string) Result" where
  "render_md w s = Ok (markdown w s)"

fun compile_each :: "World \<Rightarrow> State \<Rightarrow> store \<Rightarrow> addr list \<Rightarrow> store \<times> exn option" where
  "compile_each w st h [] = (h, None)"
| "compile_each w st h (p # ps) =
     (case unwrap (render_md w (md (h ! p))) of
        Inl e \<Rightarrow> (h, Some e)
      | Inr t \<Rightarrow>
          compile_each w st (set_html h p (include_before st @ t @ include_after st)) ps)"

definition compile_files :: "World \<Rightarrow> State \<Rightarrow> store \<Rightarrow> store \<times> exn option" where
  "compile_files w st h = compile_each w st h (static_pages st @ posts st)"

text \<open>\<open>s.rfind(sub)\<close> and \<open>s[:k]\<close>.\<close>

fun rfind :: "string \<Rightarrow> string \<Rightarrow> int" where
  "rfind [] sub = (if sub = [] then 0 else -1)"
| "rfind (c # cs) sub =
     (let k = rfind cs sub
      in if 0 \<le> k then k + 1 else if prefix sub (c # cs) then 0 else -1)"

definition slice_to :: "string \<Rightarrow> int \<Rightarrow> string" where
  "slice_to s k =
     (if k < 0 then take (nat (int (length s) + k)) s else take (nat k) s)"

definition write_file :: "string \<Rightarrow> string \<Rightarrow> effect list" where
  "write_file p data =
     [Mkdir (slice_to p (rfind p ''/'')), Write (replace p ''.md'' ''.html'') data]"

definition write_files :: "State \<Rightarrow> store \<Rightarrow> string \<Rightarrow> string \<Rightarrow> effect list" where
  "write_files st h srcdir outdir =
     concat (map (\<lambda>p. write_file (replace (path (h ! p)) srcdir (outdir @ ''/'')) (html (h ! p)))
               (static_pages st @ posts st))"

definition new_State :: State where
  "new_State = \<lparr>posts = [], static_pages = [], include_before = [], include_after = []\<rparr>"

text \<open>
  Doing what \<open>write_files\<close> attempts, in order, up to the first attempt the world answers
  with an exception: what was done, and that exception.
\<close>

fun perform :: "World \<Rightarrow> effect list \<Rightarrow> effect list \<times> exn option" where
  "perform w [] = ([], None)"
| "perform w (e # es) =
     (case fails w e of
        Some x \<Rightarrow> ([], Some x)
      | None \<Rightarrow> (case perform w es of (done, r) \<Rightarrow> (e # done, r)))"

text \<open>
  \<open>main\<close> for the arguments \<open>srcdir\<close> and \<open>outdir\<close>: what it did to the world, and the
  exception it raised or the exit code it returned. \<open>r_tree\<close> is a \<open>Result\<close> object, so
  \<open>r_tree is None\<close> is false whatever it holds; \<open>r_tree.ok()\<close> of an \<open>Err\<close> is \<open>None\<close>,
  and \<open>process_pages\<close> raises \<open>AttributeError\<close> when it reads \<open>tree.files\<close> of \<open>None\<close>
  (as \<open>r_tree.err()\<close> would, were \<open>r_tree\<close> \<open>None\<close>).
  When nothing stands at the source directory, \<open>listdir\<close> in \<open>build_file_tree\<close> raises
  \<open>FileNotFoundError\<close>, which is not caught. The two \<open>path_join\<close> for the static
  directories raise \<open>TypeError\<close> when one of them is not configured, and \<open>copytree\<close>
  raises when the world refuses it.
\<close>

definition result_is_None :: "(errstr, 'a) Result \<Rightarrow> bool" where
  "result_is_None r = False"

fun ok :: "(errstr, 'a) Result \<Rightarrow> 'a option" where
  "ok (Ok v) = Some v"
| "ok (Err e) = None"

fun err :: "(errstr, 'a) Result \<Rightarrow> errstr option" where
  "err (Ok v) = None"
| "err (Err e) = Some e"

fun is_err :: "(errstr, 'a) Result \<Rightarrow> bool" where
  "is_err (Ok v) = False"
| "is_err (Err e) = True"

definition main_after_tree ::
  "World \<Rightarrow> string \<Rightarrow> string \<Rightarrow> Config \<Rightarrow> State \<Rightarrow> FileTree \<Rightarrow> effect list \<times> (exn + int)" where
  "main_after_tree w srcdir outdir config st tree =
     (case process_pages w st [] tree of
        (st1, h1, Some e) \<Rightarrow> ([], Inl e)
      | (st1, h1, None) \<Rightarrow>
     (case preprocess_pages st1 h1 tree of
        (h2, Some e) \<Rightarrow> ([], Inl e)
      | (h2, None) \<Rightarrow>
     (case compile_files w st1 h2 of
        (h3, Some e) \<Rightarrow> ([], Inl e)
      | (h3, None) \<Rightarrow>
     (case perform w (write_files st1 h3 srcdir outdir) of
        (done, Some e) \<Rightarrow> (done, Inl e)
      | (done, None) \<Rightarrow>
     (case (static_src config, static_dest config) of
        (Some src, Some dest) \<Rightarrow>
          (case fails w (Copytree (path_join srcdir src) (path_join outdir dest)) of
             Some e \<Rightarrow> (done, Inl e)
           | None \<Rightarrow>
               (done @ [Copytree (path_join srcdir src) (path_join outdir dest)], Inr 0))
      | _ \<Rightarrow> (done, Inl TypeError))))))"

text \<open>Lines 123 to 153 of \<open>main\<close>: what it does with the result of \<open>build_file_tree\<close>.\<close>

definition main_with_tree ::
  "World \<Rightarrow> string \<Rightarrow> string \<Rightarrow> Config \<Rightarrow> State \<Rightarrow> (errstr, FileTree) Result
     \<Rightarrow> effect list \<times> (exn + int)" where
  "main_with_tree w srcdir outdir config st r_tree =
     (if result_is_None r_tree then ([], Inl AttributeError)
      else
        (case ok r_tree of
           None \<Rightarrow> ([], Inl AttributeError)
         | Some tree \<Rightarrow> main_after_tree w srcdir outdir config st tree))"

definition main :: "World \<Rightarrow> string \<Rightarrow> string \<Rightarrow> effect list \<times> (exn + int)" where
  "main w srcdir outdir =
     (case read_config w srcdir of
        Inl e \<Rightarrow> ([], Inl e)
      | Inr r_config \<Rightarrow>
          if is_err r_config then ([Print (case err r_config of Some e \<Rightarrow> e | None \<Rightarrow> ''None'')], Inr 1)
          else
            (case ok r_config of
               None \<Rightarrow> ([], Inl AttributeError)
             | Some config \<Rightarrow>
                 (case load_before_after_files w srcdir config new_State of
                    (st, Some e) \<Rightarrow> ([], Inl e)
                  | (st, None) \<Rightarrow>
                      (case srcdir_node w of
                         None \<Rightarrow> ([], Inl (OSError srcdir))
                       | Some node \<Rightarrow>
                      (case build_file_tree srcdir srcdir config None node of
                         Inl e \<Rightarrow> ([], Inl e)
                       | Inr r_tree \<Rightarrow> main_with_tree w srcdir outdir config st r_tree)))))"

section \<open>Notions the properties use, and concrete inputs\<close>

text \<open>
  The predicates and texts in which the properties below are stated, and the inputs on
  which they are evaluated. First a world in which the source directory is a regular
  file, so that nothing below it can be read, and a configuration that names a file to
  include before.
\<close>

definition no_files :: World where
  "no_files = \<lparr>srcdir_at_config = Some RegularFile, srcdir_node = Some RegularFile,
               read_file = (\<lambda>p. None), json_loads = (\<lambda>t. None), markdown = (\<lambda>s. s),
               fails = (\<lambda>e. None)\<rparr>"

text \<open>
  A world in which the source directory holds \<open>config.json\<close> with the text \<open>{}\<close> when
  \<open>read_config\<close> opens it, and has been replaced by a regular file when
  \<open>build_file_tree\<close> lists it.
\<close>

definition replaced :: World where
  "replaced = \<lparr>srcdir_at_config = Some (Directory [(''config.json'', RegularFile)]),
               srcdir_node = Some RegularFile,
               read_file = (\<lambda>p. if p = ''site/config.json'' then Some ''{}'' else None),
               json_loads = (\<lambda>t. if t = ''{}'' then Some (JObject []) else None),
               markdown = (\<lambda>s. s), fails = (\<lambda>e. None)\<rparr>"

definition with_header :: Config where
  "with_header = \<lparr>posts_dir = Some ''posts'', include_before_file = Some ''head.html'',
                   include_after_file = None, static_src = None, static_dest = None\<rparr>"

text \<open>
  Every file of a tree with the path of the \<open>FileTree\<close> that holds it, which is the
  directory it was listed in; the trees inside a tree; and the file systems \<open>listdir\<close>
  can return: no entry has an empty name or a slash in its name.
\<close>

fun tree_files :: "FileTree \<Rightarrow> (string \<times> File) list" where
  "tree_files (FileTree d fs ts) = map (Pair d) fs @ concat (map tree_files ts)"

text \<open>
  A file listed in directory \<open>d\<close>: its path is \<open>d\<close> joined with a name, it is a post
  exactly when \<open>d\<close> is the root joined with the configured posts directory, and its
  metadata is the empty default.
\<close>

definition listed_in :: "Config \<Rightarrow> string \<Rightarrow> string \<times> File \<Rightarrow> bool" where
  "listed_in config root df =
     (case df of (d, f) \<Rightarrow>
        (\<exists>pd. posts_dir config = Some pd \<and> is_post f = (d = path_join root pd)) \<and>
        (\<exists>fname. path f = path_join d fname) \<and>
        metadata f = \<lparr>title = [], desc = []\<rparr>)"

fun listable :: "fsnode \<Rightarrow> bool" where
  "listable RegularFile = True"
| "listable (Directory es) =
     (\<forall>e \<in> set es. fst e \<noteq> [] \<and> CHR ''/'' \<notin> set (fst e) \<and> listable (snd e))"

text \<open>A child tree has a longer path than its parent, all the way down.\<close>

fun deeper :: "FileTree \<Rightarrow> bool" where
  "deeper (FileTree d fs ts) = (\<forall>c \<in> set ts. length d < length (tree_path c) \<and> deeper c)"

fun subtrees :: "FileTree \<Rightarrow> FileTree list" where
  "subtrees (FileTree d fs ts) = FileTree d fs ts # concat (map subtrees ts)"

definition site_fs :: fsnode where
  "site_fs = Directory
     [(''config.json'', RegularFile),
      (''index.md'', RegularFile),
      (''posts'', Directory
         [(''a.md'', RegularFile),
          (''drafts'', Directory [(''b.md'', RegularFile)])])]"

definition site_tree :: FileTree where
  "site_tree =
     FileTree ''site'' [new_File ''site/index.md'' False]
       [FileTree ''site/posts'' [new_File ''site/posts/a.md'' True]
          [FileTree ''site/posts/drafts'' [new_File ''site/posts/drafts/b.md'' False] []]]"

text \<open>
  The pattern of \<open>title\<close> and \<open>desc\<close> for a keyword, and the text of a directive: the
  braces, whitespace, the keyword, whitespace, the argument in double quotes, whitespace,
  the braces.
\<close>

definition kw_pat :: "string \<Rightarrow> re_item list" where
  "kw_pat kw = [Lit ''{{'', Star Space, Lit kw, Plus Space, Lit [DQ],
                GroupStar Dot, Lit [DQ], Star Space, Lit ''}}'']"

definition directive :: "string \<Rightarrow> string \<Rightarrow> string \<Rightarrow> string \<Rightarrow> string \<Rightarrow> string" where
  "directive ws1 kw ws2 x ws3 = ''{{'' @ ws1 @ kw @ ws2 @ [DQ] @ x @ [DQ] @ ws3 @ ''}}''"

definition spaces :: "string \<Rightarrow> bool" where
  "spaces ws = (\<forall>c \<in> set ws. isspace c)"

text \<open>The text up to the first line feed.\<close>

definition first_line :: "string \<Rightarrow> string" where
  "first_line s = takeWhile (\<lambda>c. c \<noteq> NL) s"

text \<open>
  A store with two posts and one page, as \<open>process_pages\<close> leaves them apart from the
  texts, and the state that refers to them.
\<close>

definition blog_store :: store where
  "blog_store = [new_File ''site/posts/a.md'' True, new_File ''site/posts/b.md'' True,
                 new_File ''site/index.md'' False]"

definition blog_state :: State where
  "blog_state = \<lparr>posts = [0, 1], static_pages = [2], include_before = [], include_after = []\<rparr>"

text \<open>Two title directives, \<open>{{title "A"}}\<close> and \<open>{{title "B"}}\<close>.\<close>

definition title_A :: string where
  "title_A = directive [] ''title'' '' '' ''A'' []"

definition title_B :: string where
  "title_B = directive [] ''title'' '' '' ''B'' []"

text \<open>
  The text of a posts directive, and the entry of a post whose title and description
  are empty.
\<close>

definition posts_directive :: "string \<Rightarrow> string \<Rightarrow> string" where
  "posts_directive ws1 ws2 = ''{{'' @ ws1 @ ''posts'' @ ws2 @ ''}}''"

definition blank_entry :: "string \<Rightarrow> string" where
  "blank_entry p =
     ''<div class='' @ [DQ] @ ''post'' @ [DQ] @ ''>'' @ [NL] @
     ''<div class='' @ [DQ] @ ''post-heading'' @ [DQ] @ ''>'' @ [NL] @
     ''<a href='' @ [DQ] @ post_url p @ [DQ] @ ''></a>'' @ [NL] @
     ''</div>'' @ [NL] @
     ''<div class='' @ [DQ] @ ''post-desc'' @ [DQ] @ ''>'' @ [NL] @
     [NL] @
     ''</div>'' @ [NL] @
     ''</div>'' @ [NL]"

text \<open>
  What \<open>process_pages\<close> leaves when it starts from empty lists and an empty store with
  files that have the default metadata: no address twice in the two lists, every address
  in the store, every metadata still the default.
\<close>

definition addresses_ok :: "State \<Rightarrow> store \<Rightarrow> bool" where
  "addresses_ok st h =
     (distinct (posts st @ static_pages st) \<and>
      (\<forall>a \<in> set (posts st @ static_pages st). a < length h) \<and>
      (\<forall>f \<in> set h. metadata f = \<lparr>title = [], desc = []\<rparr>))"

text \<open>
  A source directory with a page and two posts, the first post and the page holding a
  posts directive and the second post a title; the tree, state and store the run builds
  from it, and the store after the pass over the posts.
\<close>

definition run_fs :: fsnode where
  "run_fs = Directory
     [(''index.md'', RegularFile),
      (''posts'', Directory [(''a.md'', RegularFile), (''b.md'', RegularFile)])]"

definition run_tree :: FileTree where
  "run_tree =
     FileTree ''site'' [new_File ''site/index.md'' False]
       [FileTree ''site/posts''
          [new_File ''site/posts/a.md'' True, new_File ''site/posts/b.md'' True] []]"

definition run_world :: World where
  "run_world =
     \<lparr>srcdir_at_config = Some run_fs, srcdir_node = Some run_fs,
      read_file = (\<lambda>p. if p = ''site/posts/b.md'' then Some title_B
                        else if p = ''site/posts/a.md'' \<or> p = ''site/index.md''
                        then Some ''{{posts}}'' else None),
      json_loads = (\<lambda>t. None), markdown = (\<lambda>s. s), fails = (\<lambda>e. None)\<rparr>"

definition run_state :: State where
  "run_state = \<lparr>posts = [1, 2], static_pages = [0], include_before = [], include_after = []\<rparr>"

definition run_store :: store where
  "run_store =
     [(new_File ''site/index.md'' False)\<lparr>md := ''{{posts}}''\<rparr>,
      (new_File ''site/posts/a.md'' True)\<lparr>md := ''{{posts}}''\<rparr>,
      (new_File ''site/posts/b.md'' True)\<lparr>md := title_B\<rparr>]"

definition run_posts_done :: store where
  "run_posts_done =
     set_md (set_title (set_md run_store 1 (posts_html run_state run_store)) 2 ''B'') 2 ''# B''"

text \<open>
  A run for the source directory \<open>./site\<close>, which holds a configuration, a page with a
  posts directive, one post and the static directory: the configuration, the tree, and
  the state and store \<open>process_pages\<close> builds.
\<close>

definition dot_config :: Config where
  "dot_config = \<lparr>posts_dir = Some ''posts'', include_before_file = None,
                  include_after_file = None, static_src = Some ''static'',
                  static_dest = Some ''static''\<rparr>"

definition dot_fs :: fsnode where
  "dot_fs = Directory
     [(''config.json'', RegularFile),
      (''index.md'', RegularFile),
      (''posts'', Directory [(''a.md'', RegularFile)]),
      (''static'', Directory [])]"

definition dot_tree :: FileTree where
  "dot_tree =
     FileTree ''./site'' [new_File ''./site/index.md'' False]
       [FileTree ''./site/posts'' [new_File ''./site/posts/a.md'' True] []]"

definition dot_world :: World where
  "dot_world =
     \<lparr>srcdir_at_config = Some dot_fs, srcdir_node = Some dot_fs,
      read_file = (\<lambda>p. if p = ''./site/index.md'' then Some ''{{posts}}''
                        else if p = ''./site/posts/a.md'' then Some ''Text''
                        else None),
      json_loads = (\<lambda>t. None), markdown = (\<lambda>s. s), fails = (\<lambda>e. None)\<rparr>"

definition dot_state :: State where
  "dot_state = \<lparr>posts = [1], static_pages = [0], include_before = [], include_after = []\<rparr>"

definition dot_store :: store where
  "dot_store =
     [(new_File ''./site/index.md'' False)\<lparr>md := ''{{posts}}''\<rparr>,
      (new_File ''./site/posts/a.md'' True)\<lparr>md := ''Text''\<rparr>]"

text \<open>The fragment with one entry, for a post without title and description.\<close>

definition one_entry :: "string \<Rightarrow> string" where
  "one_entry href =
     ''<div class='' @ [DQ] @ ''posts'' @ [DQ] @ ''>'' @
     ''<div class='' @ [DQ] @ ''post'' @ [DQ] @ ''>'' @ [NL] @
     ''<div class='' @ [DQ] @ ''post-heading'' @ [DQ] @ ''>'' @ [NL] @
     ''<a href='' @ [DQ] @ href @ [DQ] @ ''></a>'' @ [NL] @
     ''</div>'' @ [NL] @
     ''<div class='' @ [DQ] @ ''post-desc'' @ [DQ] @ ''>'' @ [NL] @
     [NL] @
     ''</div>'' @ [NL] @
     ''</div>'' @ [NL] @
     ''</div>''"

text \<open>
  A directive is well-formed for the gate and the pattern: no blank or one blank after the
  braces, whitespace after the keyword, an argument without a line feed or a brace, and
  no double quote after it on the line where the directive ends, \<open>after\<close> being the text
  that follows the directive.
\<close>

definition well_formed :: "string \<Rightarrow> string \<Rightarrow> string \<Rightarrow> string \<Rightarrow> string \<Rightarrow> bool" where
  "well_formed ws1 ws2 x ws3 after =
     ((ws1 = [] \<or> ws1 = '' '') \<and> ws2 \<noteq> [] \<and> spaces ws2 \<and> spaces ws3 \<and>
      NL \<notin> set x \<and> CHR ''{'' \<notin> set x \<and>
      DQ \<notin> set (first_line (ws3 @ ''}}'' @ after)))"

text \<open>
  \<open>preprocess_md\<close> takes \<open>doc\<close> and the store \<open>h\<close> to the text \<open>once\<close> and the store \<open>h1\<close>,
  and a second pass over \<open>once\<close> leaves both as they are.
\<close>

definition same_twice :: "State \<Rightarrow> store \<Rightarrow> addr \<Rightarrow> string \<Rightarrow> store \<Rightarrow> string \<Rightarrow> bool" where
  "same_twice st h a doc h1 once =
     (preprocess_md st h a doc = (h1, Inr (Ok once)) \<and>
      preprocess_md st h1 a once = (h1, Inr (Ok once)))"

section \<open>Properties\<close>

subsection \<open>Posts and pages in \<open>build_file_tree\<close>\<close>

lemma tree_files_sel:
  "tree_files t = map (Pair (tree_path t)) (files t) @ concat (map tree_files (trees t))"
  by (cases t) simp

lemma build_file_tree_listed:
  "(build_file_tree dir root config topt node = Inr (Ok t) \<longrightarrow>
      (case topt of None \<Rightarrow> True
       | Some t0 \<Rightarrow> tree_path t0 = dir \<and> (\<forall>df \<in> set (tree_files t0). listed_in config root df)) \<longrightarrow>
      tree_path t = dir \<and> (\<forall>df \<in> set (tree_files t). listed_in config root df))"
  "(build_loop dir root config tree es = Inr (Ok t) \<longrightarrow>
      tree_path tree = dir \<and> (\<forall>df \<in> set (tree_files tree). listed_in config root df) \<longrightarrow>
      tree_path t = dir \<and> (\<forall>df \<in> set (tree_files t). listed_in config root df))"
proof (induction dir root config topt node and dir root config tree es
       arbitrary: t and t rule: build_file_tree_build_loop.induct)
  case (1 dir root config tree)
  then show ?case by simp
next
  case (2 dir root config tree dir_files)
  then show ?case by (auto split: option.splits)
next
  case (3 dir root config tree)
  then show ?case by auto
next
  case (4 dir root config tree fname node rest)
  show ?case
  proof (cases "Some fname \<in> set (excluded config)")
    case True
    with 4(1) show ?thesis by simp
  next
    case notex: False
    show ?thesis
    proof (cases node)
      case RegularFile
      show ?thesis
      proof (cases "posts_dir config")
        case None
        with notex RegularFile show ?thesis by simp
      next
        case (Some pd)
        let ?tree' = "FileTree (tree_path tree)
                       (files tree @ [new_File (path_join dir fname) (dir = path_join root pd)])
                       (trees tree)"
        show ?thesis
        proof (intro impI)
          assume res: "build_loop dir root config tree ((fname, node) # rest) = Inr (Ok t)"
            and inv: "tree_path tree = dir \<and> (\<forall>df \<in> set (tree_files tree). listed_in config root df)"
          from res notex RegularFile Some
          have r: "build_loop dir root config ?tree' rest = Inr (Ok t)" by simp
          have "listed_in config root (dir, new_File (path_join dir fname) (dir = path_join root pd))"
            using Some by (auto simp: listed_in_def new_File_def)
          with inv have inv': "tree_path ?tree' = dir \<and> (\<forall>df \<in> set (tree_files ?tree'). listed_in config root df)"
            by (auto simp: tree_files_sel [of tree])
          from 4(2) [OF notex RegularFile Some] r inv' show
            "tree_path t = dir \<and> (\<forall>df \<in> set (tree_files t). listed_in config root df)"
            by blast
        qed
      qed
    next
      case (Directory sub)
      show ?thesis
      proof (intro impI)
        assume res: "build_loop dir root config tree ((fname, node) # rest) = Inr (Ok t)"
          and inv: "tree_path tree = dir \<and> (\<forall>df \<in> set (tree_files tree). listed_in config root df)"
        from res notex Directory obtain t1 where
          sub: "build_file_tree (path_join dir fname) root config
                  (Some (FileTree (path_join dir fname) [] [])) (Directory sub) = Inr (Ok t1)"
          and r: "build_loop dir root config
                    (FileTree (tree_path tree) (files tree) (trees tree @ [t1])) rest = Inr (Ok t)"
          by (auto split: sum.splits Result.splits)
        from 4(3) [OF notex Directory] sub
        have t1: "\<forall>df \<in> set (tree_files t1). listed_in config root df" by simp
        let ?tree' = "FileTree (tree_path tree) (files tree) (trees tree @ [t1])"
        from inv t1 have inv': "tree_path ?tree' = dir \<and> (\<forall>df \<in> set (tree_files ?tree'). listed_in config root df)"
          by (auto simp: tree_files_sel [of tree])
        from 4(4) [OF notex Directory sub refl] r inv'
        show "tree_path t = dir \<and> (\<forall>df \<in> set (tree_files t). listed_in config root df)"
          by blast
      qed
    qed
  qed
qed


lemma deeper_sel:
  "deeper t = (\<forall>c \<in> set (trees t). length (tree_path t) < length (tree_path c) \<and> deeper c)"
  by (cases t) simp

lemma path_join_longer:
  "n \<noteq> [] \<Longrightarrow> CHR ''/'' \<notin> set n \<Longrightarrow> length d < length (path_join d n)"
  by (cases n) (auto simp: path_join_def)

lemma build_file_tree_deeper:
  "(build_file_tree dir root config topt node = Inr (Ok t) \<longrightarrow> listable node \<longrightarrow>
      (case topt of None \<Rightarrow> True | Some t0 \<Rightarrow> tree_path t0 = dir \<and> deeper t0) \<longrightarrow>
      tree_path t = dir \<and> deeper t)"
  "(build_loop dir root config tree es = Inr (Ok t) \<longrightarrow> listable (Directory es) \<longrightarrow>
      tree_path tree = dir \<and> deeper tree \<longrightarrow>
      tree_path t = dir \<and> deeper t)"
proof (induction dir root config topt node and dir root config tree es
       arbitrary: t and t rule: build_file_tree_build_loop.induct)
  case (1 dir root config tree)
  then show ?case by simp
next
  case (2 dir root config tree dir_files)
  then show ?case by (auto split: option.splits)
next
  case (3 dir root config tree)
  then show ?case by auto
next
  case (4 dir root config tree fname node rest)
  show ?case
  proof (intro impI)
    assume res: "build_loop dir root config tree ((fname, node) # rest) = Inr (Ok t)"
      and wf: "listable (Directory ((fname, node) # rest))"
      and inv: "tree_path tree = dir \<and> deeper tree"
    from wf have wfr: "listable (Directory rest)" and wfn: "listable node"
      and name: "fname \<noteq> []" "CHR ''/'' \<notin> set fname" by auto
    show "tree_path t = dir \<and> deeper t"
    proof (cases "Some fname \<in> set (excluded config)")
      case True
      with 4(1) res wfr inv show ?thesis by simp
    next
      case notex: False
      show ?thesis
      proof (cases node)
        case RegularFile
        show ?thesis
        proof (cases "posts_dir config")
          case None
          with notex RegularFile res show ?thesis by simp
        next
          case (Some pd)
          let ?tree' = "FileTree (tree_path tree)
                         (files tree @ [new_File (path_join dir fname) (dir = path_join root pd)])
                         (trees tree)"
          from res notex RegularFile Some
          have r: "build_loop dir root config ?tree' rest = Inr (Ok t)" by simp
          from inv have inv': "tree_path ?tree' = dir \<and> deeper ?tree'"
            by (auto simp: deeper_sel [of tree])
          from 4(2) [OF notex RegularFile Some] r wfr inv' show ?thesis by blast
        qed
      next
        case (Directory sub)
        from res notex Directory obtain t1 where
          sub: "build_file_tree (path_join dir fname) root config
                  (Some (FileTree (path_join dir fname) [] [])) (Directory sub) = Inr (Ok t1)"
          and r: "build_loop dir root config
                    (FileTree (tree_path tree) (files tree) (trees tree @ [t1])) rest = Inr (Ok t)"
          by (auto split: sum.splits Result.splits)
        from 4(3) [OF notex Directory] sub wfn Directory
        have t1: "tree_path t1 = path_join dir fname \<and> deeper t1" by simp
        let ?tree' = "FileTree (tree_path tree) (files tree) (trees tree @ [t1])"
        from inv t1 path_join_longer [OF name, of dir]
        have inv': "tree_path ?tree' = dir \<and> deeper ?tree'"
          by (auto simp: deeper_sel [of tree])
        from 4(4) [OF notex Directory sub refl] r wfr inv' show ?thesis by blast
      qed
    qed
  qed
qed

lemma deeper_tree_files:
  "deeper t \<Longrightarrow> (d, f) \<in> set (tree_files t) \<Longrightarrow> length (tree_path t) \<le> length d"
proof (induction t arbitrary: d f)
  case (FileTree p fs ts)
  then show ?case by (fastforce simp: less_imp_le)
qed

lemma deeper_subtrees: "deeper t \<Longrightarrow> t1 \<in> set (subtrees t) \<Longrightarrow> deeper t1"
proof (induction t arbitrary: t1)
  case (FileTree p fs ts)
  then show ?case by fastforce
qed

lemma tree_files_below:
  "t1 \<in> set (subtrees t) \<Longrightarrow> c \<in> set (trees t1) \<Longrightarrow> (d, f) \<in> set (tree_files c)
     \<Longrightarrow> (d, f) \<in> set (tree_files t)"
proof (induction t arbitrary: t1)
  case (FileTree p fs ts)
  then show ?case by (fastforce simp: tree_files_sel [of t1])
qed

lemma below_differs:
  assumes "deeper t" "t1 \<in> set (subtrees t)" "c \<in> set (trees t1)" "(d, f) \<in> set (tree_files c)"
  shows "d \<noteq> tree_path t1"
proof -
  from assms(1,2) have "deeper t1" by (rule deeper_subtrees)
  with assms(3) have "length (tree_path t1) < length (tree_path c)" "deeper c"
    by (auto simp: deeper_sel [of t1])
  with deeper_tree_files [OF \<open>deeper c\<close> assms(4)] show ?thesis by auto
qed


text \<open>
  C5. In the tree \<open>build_file_tree\<close> returns, every file is listed in the directory of
  the \<open>FileTree\<close> that holds it and is a post exactly when that directory is the root
  joined with the configured posts directory. On a file system as \<open>listdir\<close> returns
  it, no directory below another has that one's path, so the files in the subdirectories
  of the posts directory are pages.
\<close>

theorem build_file_tree_is_post:
  assumes "build_file_tree dir root config None node = Inr (Ok t)"
  shows "(\<forall>(d, f) \<in> set (tree_files t).
            (\<exists>fname. path f = path_join d fname) \<and>
            (\<exists>pd. posts_dir config = Some pd \<and> is_post f = (d = path_join root pd))) \<and>
         (listable node \<longrightarrow>
            (\<forall>t1 \<in> set (subtrees t). \<forall>c \<in> set (trees t1). \<forall>(d, f) \<in> set (tree_files c).
               d \<noteq> tree_path t1 \<and>
               (posts_dir config = Some pd \<and> tree_path t1 = path_join root pd \<longrightarrow> \<not> is_post f)))"
proof (intro conjI impI)
  from build_file_tree_listed(1) [of dir root config None node t] assms
  have all: "\<forall>df \<in> set (tree_files t). listed_in config root df" by simp
  then show "\<forall>(d, f) \<in> set (tree_files t).
            (\<exists>fname. path f = path_join d fname) \<and>
            (\<exists>pd. posts_dir config = Some pd \<and> is_post f = (d = path_join root pd))"
    by (auto simp: listed_in_def)
  assume "listable node"
  with build_file_tree_deeper(1) [of dir root config None node t] assms
  have deep: "deeper t" by simp
  show "\<forall>t1 \<in> set (subtrees t). \<forall>c \<in> set (trees t1). \<forall>(d, f) \<in> set (tree_files c).
               d \<noteq> tree_path t1 \<and>
               (posts_dir config = Some pd \<and> tree_path t1 = path_join root pd \<longrightarrow> \<not> is_post f)"
  proof (intro ballI, clarify)
    fix t1 c d f
    assume t1: "t1 \<in> set (subtrees t)" and c: "c \<in> set (trees t1)"
      and df: "(d, f) \<in> set (tree_files c)"
    from below_differs [OF deep t1 c df] have ne: "d \<noteq> tree_path t1" .
    from t1 c df have "(d, f) \<in> set (tree_files t)"
      by (rule tree_files_below)
    with all have "listed_in config root (d, f)" by blast
    with ne show "d \<noteq> tree_path t1 \<and>
               (posts_dir config = Some pd \<and> tree_path t1 = path_join root pd \<longrightarrow> \<not> is_post f)"
      by (auto simp: listed_in_def)
  qed
qed

theorem build_file_tree_is_post_witness:
  "build_file_tree ''site'' ''site'' with_header None site_fs = Inr (Ok site_tree) \<and>
   listable site_fs \<and>
   map (\<lambda>(d, f). (d, path f, is_post f)) (tree_files site_tree) =
     [(''site'', ''site/index.md'', False),
      (''site/posts'', ''site/posts/a.md'', True),
      (''site/posts/drafts'', ''site/posts/drafts/b.md'', False)]"
proof -
  have built: "build_file_tree ''site'' ''site'' with_header None site_fs = Inr (Ok site_tree)"
    by code_simp
  have wf: "listable site_fs" by code_simp
  have fs: "map (\<lambda>(d, f). (d, path f, is_post f)) (tree_files site_tree) =
     [(''site'', ''site/index.md'', False),
      (''site/posts'', ''site/posts/a.md'', True),
      (''site/posts/drafts'', ''site/posts/drafts/b.md'', False)]"
    by code_simp
  from build_file_tree_is_post [OF built, of "''posts''"] built wf fs show ?thesis by simp
qed

subsection \<open>Failures of \<open>load_before_after_files\<close> and \<open>build_file_tree\<close>\<close>

lemma load_before_after_files_returns:
  "\<exists>st1. load_before_after_files w root config st = (st1, None)"
  by (simp add: load_before_after_files_def split: prod.splits option.splits)

text \<open>
  C8, as the claim states it, fails: the include file cannot be read, the body of the
  \<open>try\<close> raises, and the call returns with no exception and the include text empty.
\<close>

theorem load_before_after_files_counterexample:
  "load_before_after_try no_files ''site'' with_header new_State
     = (new_State, Some (OSError ''site/head.html'')) \<and>
   load_before_after_files no_files ''site'' with_header new_State = (new_State, None) \<and>
   include_before new_State = []"
  by (simp add: load_before_after_files_def load_before_after_try_def no_files_def
        with_header_def new_State_def path_join_def)

text \<open>
  C8, amended. \<open>load_before_after_files\<close> never raises and returns nothing: its caller
  sees the state the body of the \<open>try\<close> had reached. When the file to include before
  cannot be read that is the state as it was, and the file to include after is not looked
  at.
\<close>

theorem load_before_after_files_never_raises:
  "snd (load_before_after_files w root config st) = None \<and>
   fst (load_before_after_files w root config st) = fst (load_before_after_try w root config st) \<and>
   (\<forall>f. include_before_file config = Some f \<and> read_file w (path_join root f) = None
        \<longrightarrow> load_before_after_files w root config st = (st, None))"
  by (auto simp: load_before_after_files_def load_before_after_try_def
           split: option.splits prod.splits)

theorem load_before_after_files_never_raises_witness:
  "include_before_file with_header = Some ''head.html'' \<and>
   read_file no_files (path_join ''site'' ''head.html'') = None \<and>
   load_before_after_files no_files ''site'' with_header new_State = (new_State, None)"
  using load_before_after_files_never_raises [of no_files "''site''" with_header new_State]
  by (simp add: with_header_def no_files_def)

lemma build_never_err:
  "build_file_tree dir root config topt node = Inr (Err e) \<longrightarrow> node = RegularFile"
  "build_loop dir root config tree es \<noteq> Inr (Err e)"
proof (induction dir root config topt node and dir root config tree es
       arbitrary: e and e rule: build_file_tree_build_loop.induct)
  case (4 dir root config tree fname node rest)
  show ?case
  proof (cases "Some fname \<in> set (excluded config)")
    case True
    with 4(1) show ?thesis by simp
  next
    case notex: False
    show ?thesis
    proof (cases node)
      case RegularFile
      show ?thesis
      proof (cases "posts_dir config")
        case None
        with notex RegularFile show ?thesis by simp
      next
        case (Some pd)
        with 4(2) [OF notex RegularFile Some] notex RegularFile show ?thesis by simp
      qed
    next
      case (Directory sub)
      show ?thesis
      proof (cases "build_file_tree (path_join dir fname) root config
                      (Some (FileTree (path_join dir fname) [] [])) (Directory sub)")
        case (Inl x)
        with notex Directory show ?thesis by simp
      next
        case (Inr r)
        show ?thesis
        proof (cases r)
          case (Err e1)
          with 4(3) [OF notex Directory, of e1] Inr show ?thesis by simp
        next
          case (Ok t1)
          with 4(4) [OF notex Directory Inr Ok] notex Directory Inr show ?thesis by simp
        qed
      qed
    qed
  qed
qed simp_all

lemma read_config_Ok:
  "read_config w root = Inr (Ok config) \<Longrightarrow> \<exists>es. srcdir_at_config w = Some (Directory es)"
  by (auto simp: read_config_def split: option.splits fsnode.splits json.splits)

text \<open>
  In a world that nobody changes during the run, \<open>build_file_tree\<close> returns no \<open>Err\<close> to
  \<open>main\<close>: when the source directory is not a directory, \<open>read_config\<close> has raised or
  returned an \<open>Err\<close> before.
\<close>

lemma unchanged_no_tree_error:
  assumes "read_config w srcdir = Inr (Ok config)" "unchanged w" "srcdir_node w = Some node"
  shows "build_file_tree srcdir srcdir config None node \<noteq> Inr (Err e)"
proof -
  from read_config_Ok [OF assms(1)] assms(2,3) obtain es where "node = Directory es"
    by (auto simp: unchanged_def)
  then show ?thesis using build_never_err(1) [of srcdir srcdir config None node e] by auto
qed

text \<open>
  C9. The check of the result of \<open>build_file_tree\<close> lets every \<open>Err\<close> pass: \<open>main\<close> goes
  on with \<open>None\<close> for the tree and raises \<open>AttributeError\<close>, having printed nothing. So
  does every run in which \<open>read_config\<close> returned a configuration and \<open>build_file_tree\<close>
  an \<open>Err\<close>: it does not return 1. In such a run the source directory was a directory
  when \<open>read_config\<close> opened \<open>config.json\<close> and is a regular file when \<open>build_file_tree\<close>
  lists it.
\<close>

theorem main_tree_error_raises:
  "main_with_tree w srcdir outdir config st (Err e) = ([], Inl AttributeError) \<and>
   (read_config w srcdir = Inr (Ok config) \<and> srcdir_node w = Some node \<and>
    build_file_tree srcdir srcdir config None node = Inr (Err e) \<longrightarrow>
      main w srcdir outdir = ([], Inl AttributeError) \<and>
      node = RegularFile \<and> (\<exists>es. srcdir_at_config w = Some (Directory es)))"
proof (intro conjI impI)
  show "main_with_tree w srcdir outdir config st (Err e) = ([], Inl AttributeError)"
    by (simp add: main_with_tree_def result_is_None_def)
next
  assume a: "read_config w srcdir = Inr (Ok config) \<and> srcdir_node w = Some node \<and>
    build_file_tree srcdir srcdir config None node = Inr (Err e)"
  obtain st1 where "load_before_after_files w srcdir config new_State = (st1, None)"
    using load_before_after_files_returns by blast
  with a show "main w srcdir outdir = ([], Inl AttributeError)"
    by (simp add: main_def main_with_tree_def result_is_None_def)
next
  assume a: "read_config w srcdir = Inr (Ok config) \<and> srcdir_node w = Some node \<and>
    build_file_tree srcdir srcdir config None node = Inr (Err e)"
  then show "node = RegularFile"
    using build_never_err(1) [of srcdir srcdir config None node e] by blast
next
  assume a: "read_config w srcdir = Inr (Ok config) \<and> srcdir_node w = Some node \<and>
    build_file_tree srcdir srcdir config None node = Inr (Err e)"
  then show "\<exists>es. srcdir_at_config w = Some (Directory es)"
    using read_config_Ok [of w srcdir config] by blast
qed

theorem main_tree_error_raises_witness:
  "read_config replaced ''site'' = Inr (Ok new_Config) \<and>
   srcdir_node replaced = Some RegularFile \<and>
   build_file_tree ''site'' ''site'' new_Config None RegularFile
     = Inr (Err (not_a_directory ''site'')) \<and>
   main replaced ''site'' ''out'' = ([], Inl AttributeError)"
proof -
  have c: "read_config replaced ''site'' = Inr (Ok new_Config)"
    by (simp add: read_config_def replaced_def path_join_def config_of_def props_def)
  have n: "srcdir_node replaced = Some RegularFile" by (simp add: replaced_def)
  have b: "build_file_tree ''site'' ''site'' new_Config None RegularFile
     = Inr (Err (not_a_directory ''site''))" by simp
  from main_tree_error_raises [of replaced "''site''" "''out''" new_Config new_State
         "not_a_directory ''site''" RegularFile, THEN conjunct2] c n b
  show ?thesis by blast
qed

subsection \<open>The state \<open>process_pages\<close> leaves\<close>

lemma length_set_md [simp]: "length (set_md h a t) = length h"
  by (simp add: set_md_def)

lemma metadata_set_md:
  assumes "\<forall>f \<in> set h. metadata f = m"
  shows "\<forall>f \<in> set (set_md h a t). metadata f = m"
proof (cases "a < length h")
  case True
  show ?thesis
  proof
    fix f assume "f \<in> set (set_md h a t)"
    then have "f \<in> insert ((h ! a)\<lparr>md := t\<rparr>) (set h)"
      unfolding set_md_def using set_update_subset_insert by fastforce
    with assms True show "metadata f = m" by auto
  qed
next
  case False
  with assms show ?thesis by (simp add: set_md_def list_update_beyond)
qed

lemma addresses_ok_add:
  assumes "addresses_ok st h" "metadata f0 = \<lparr>title = [], desc = []\<rparr>"
  shows "addresses_ok (st\<lparr>posts := posts st @ [length h]\<rparr>) (h @ [f0])"
    and "addresses_ok (st\<lparr>static_pages := static_pages st @ [length h]\<rparr>) (h @ [f0])"
proof -
  from assms(1) have old: "distinct (posts st @ static_pages st)"
    "\<forall>a \<in> set (posts st @ static_pages st). a < length h"
    "\<forall>f \<in> set h. metadata f = \<lparr>title = [], desc = []\<rparr>"
    by (simp_all add: addresses_ok_def)
  from old(2) have new: "length h \<notin> set (posts st)" "length h \<notin> set (static_pages st)" by auto
  from old(2) have lt: "\<forall>a \<in> set (posts st). a < Suc (length h)"
    "\<forall>a \<in> set (static_pages st). a < Suc (length h)"
    by (auto simp: less_Suc_eq)
  from old(1) new lt old(3) assms(2)
  show "addresses_ok (st\<lparr>posts := posts st @ [length h]\<rparr>) (h @ [f0])"
    unfolding addresses_ok_def by auto
  from old(1) new lt old(3) assms(2)
  show "addresses_ok (st\<lparr>static_pages := static_pages st @ [length h]\<rparr>) (h @ [f0])"
    unfolding addresses_ok_def by auto
qed

lemma addresses_ok_set_md:
  assumes "addresses_ok st h"
  shows "addresses_ok st (set_md h a t)"
proof -
  from assms have m: "\<forall>f \<in> set h. metadata f = \<lparr>title = [], desc = []\<rparr>"
    by (simp add: addresses_ok_def)
  have "\<forall>f \<in> set (set_md h a t). metadata f = \<lparr>title = [], desc = []\<rparr>"
    using m by (rule metadata_set_md)
  with assms show ?thesis by (simp add: addresses_ok_def)
qed

lemma process_files_ok:
  "process_files w st h fs = (st1, h1, r) \<Longrightarrow> addresses_ok st h \<Longrightarrow>
   \<forall>f \<in> set fs. metadata f = \<lparr>title = [], desc = []\<rparr> \<Longrightarrow> addresses_ok st1 h1"
proof (induction fs arbitrary: st h)
  case Nil
  then show ?case by simp
next
  case (Cons f0 rest)
  let ?st1 = "if is_post f0 then st\<lparr>posts := posts st @ [length h]\<rparr>
              else st\<lparr>static_pages := static_pages st @ [length h]\<rparr>"
  from Cons.prems(3) have f0: "metadata f0 = \<lparr>title = [], desc = []\<rparr>"
    and rest: "\<forall>f \<in> set rest. metadata f = \<lparr>title = [], desc = []\<rparr>" by simp_all
  from addresses_ok_add [OF Cons.prems(2) f0] have ok1: "addresses_ok ?st1 (h @ [f0])"
    by simp
  show ?case
  proof (cases "load_md_file w (path f0)")
    case (Err e)
    with Cons.prems(1) ok1 show ?thesis by (auto simp: Let_def)
  next
    case (Ok t)
    with Cons.prems(1)
    have r: "process_files w ?st1 (set_md (h @ [f0]) (length h) t) rest = (st1, h1, r)"
      by (simp add: Let_def)
    from ok1 have "addresses_ok ?st1 (set_md (h @ [f0]) (length h) t)"
      by (rule addresses_ok_set_md)
    from Cons.IH [OF r this rest] show ?thesis .
  qed
qed

lemma process_pages_ok:
  "process_pages w st h t = (st1, h1, r) \<Longrightarrow> addresses_ok st h \<Longrightarrow>
     \<forall>df \<in> set (tree_files t). metadata (snd df) = \<lparr>title = [], desc = []\<rparr> \<Longrightarrow>
     addresses_ok st1 h1"
  "process_subtrees w st h ts = (st1, h1, r) \<Longrightarrow> addresses_ok st h \<Longrightarrow>
     \<forall>t \<in> set ts. \<forall>df \<in> set (tree_files t). metadata (snd df) = \<lparr>title = [], desc = []\<rparr> \<Longrightarrow>
     addresses_ok st1 h1"
proof (induction w st h t and w st h ts arbitrary: st1 h1 r and st1 h1 r
       rule: process_pages_process_subtrees.induct)
  case (1 w st h p fs ts)
  obtain st2 h2 r2 where pf: "process_files w st h fs = (st2, h2, r2)"
    by (cases "process_files w st h fs") auto
  have fs: "\<forall>f \<in> set fs. metadata f = \<lparr>title = [], desc = []\<rparr>"
  proof
    fix f assume "f \<in> set fs"
    then have "(p, f) \<in> set (tree_files (FileTree p fs ts))" by simp
    with "1.prems"(3) show "metadata f = \<lparr>title = [], desc = []\<rparr>" by fastforce
  qed
  from "1.prems"(3)
  have ts: "\<forall>t \<in> set ts. \<forall>df \<in> set (tree_files t). metadata (snd df) = \<lparr>title = [], desc = []\<rparr>"
    by auto
  from process_files_ok [OF pf "1.prems"(2) fs] have ok2: "addresses_ok st2 h2" .
  show ?case
  proof (cases r2)
    case None
    with "1.prems"(1) pf have "process_subtrees w st2 h2 ts = (st1, h1, r)" by simp
    from "1.IH" [OF pf [symmetric] refl None this ok2 ts] show ?thesis .
  next
    case (Some e)
    with "1.prems"(1) pf ok2 show ?thesis by simp
  qed
next
  case (2 w st h)
  then show ?case by simp
next
  case (3 w st h t ts)
  obtain st2 h2 r2 where pp: "process_pages w st h t = (st2, h2, r2)"
    by (cases "process_pages w st h t") auto
  from "3.prems"(3) have t: "\<forall>df \<in> set (tree_files t). metadata (snd df) = \<lparr>title = [], desc = []\<rparr>"
    and ts: "\<forall>t \<in> set ts. \<forall>df \<in> set (tree_files t). metadata (snd df) = \<lparr>title = [], desc = []\<rparr>"
    by auto
  from "3.IH"(1) [OF pp "3.prems"(2) t] have ok2: "addresses_ok st2 h2" .
  show ?case
  proof (cases r2)
    case None
    with "3.prems"(1) pp have "process_subtrees w st2 h2 ts = (st1, h1, r)" by simp
    from "3.IH"(2) [OF pp [symmetric] refl None this ok2 ts] show ?thesis .
  next
    case (Some e)
    with "3.prems"(1) pp ok2 show ?thesis by simp
  qed
qed

lemma load_before_after_files_lists:
  "load_before_after_files w root config st = (st0, r) \<Longrightarrow>
   posts st0 = posts st \<and> static_pages st0 = static_pages st"
  by (auto simp: load_before_after_files_def load_before_after_try_def
           split: option.splits prod.splits)

lemma pipeline_addresses_ok:
  assumes "build_file_tree dir root config None node = Inr (Ok tree)"
    and "load_before_after_files w root config new_State = (st0, r0)"
    and "process_pages w st0 [] tree = (st, h, r)"
  shows "addresses_ok st h"
proof -
  from build_file_tree_listed(1) [of dir root config None node tree] assms(1)
  have "\<forall>df \<in> set (tree_files tree). listed_in config root df" by simp
  then have fresh: "\<forall>df \<in> set (tree_files tree). metadata (snd df) = \<lparr>title = [], desc = []\<rparr>"
    by (auto simp: listed_in_def)
  from load_before_after_files_lists [OF assms(2)]
  have "addresses_ok st0 []" by (simp add: addresses_ok_def new_State_def)
  from process_pages_ok(1) [OF assms(3) this fresh] show ?thesis .
qed

lemma run_pipeline:
  "build_file_tree ''site'' ''site'' with_header None run_fs = Inr (Ok run_tree)"
  "load_before_after_files run_world ''site'' with_header new_State = (new_State, None)"
  "process_pages run_world new_State [] run_tree = (run_state, run_store, None)"
  by code_simp+

subsection \<open>Matching a directive\<close>

lemma star_skip:
  "\<forall>c \<in> set ws. in_class k c \<Longrightarrow> (\<And>c cs. s = c # cs \<Longrightarrow> \<not> in_class k c) \<Longrightarrow>
   re_match r s = Some (n, g) \<Longrightarrow>
   re_match (Star k # r) (ws @ s) = Some (length ws + n, g)"
proof (induction ws)
  case Nil
  then show ?case by (cases s) auto
next
  case (Cons c ws)
  then show ?case by simp
qed

lemma plus_skip:
  "ws \<noteq> [] \<Longrightarrow> \<forall>c \<in> set ws. in_class k c \<Longrightarrow> (\<And>c cs. s = c # cs \<Longrightarrow> \<not> in_class k c) \<Longrightarrow>
   re_match r s = Some (n, g) \<Longrightarrow>
   re_match (Plus k # r) (ws @ s) = Some (length ws + n, g)"
  by (cases ws) (auto simp: star_skip)

lemma lit_match:
  "re_match r s = Some (n, g) \<Longrightarrow> re_match (Lit l # r) (l @ s) = Some (length l + n, g)"
  by simp

lemma group_none:
  "DQ \<notin> set (takeWhile (\<lambda>c. c \<noteq> NL) u) \<Longrightarrow> re_match (GroupStar Dot # Lit [DQ] # r) u = None"
  by (induction u) (auto simp: empty_group_def)

lemma group_take:
  "NL \<notin> set x \<Longrightarrow> DQ \<notin> set (takeWhile (\<lambda>c. c \<noteq> NL) u) \<Longrightarrow>
   re_match (Lit [DQ] # r) (DQ # u) = Some (n, g) \<Longrightarrow>
   re_match (GroupStar Dot # Lit [DQ] # r) (x @ DQ # u) = Some (length x + n, Some x)"
proof (induction x)
  case Nil
  then show ?case using group_none [of u r] by (auto simp: empty_group_def split: option.splits)
next
  case (Cons c x)
  then show ?case by auto
qed


lemma title_pat_kw: "title_pat = kw_pat ''title''"
  by (simp add: title_pat_def kw_pat_def)

lemma desc_pat_kw: "desc_pat = kw_pat ''desc''"
  by (simp add: desc_pat_def kw_pat_def)

lemma not_space_simps [simp]:
  "\<not> isspace DQ" "\<not> isspace (CHR ''}'')" "\<not> isspace (CHR ''{'')"
  "\<not> isspace (CHR ''t'')" "\<not> isspace (CHR ''d'')" "\<not> isspace (CHR ''p'')"
  by (simp_all add: isspace_def)

lemma match_directive:
  assumes ws1: "spaces ws1" and ws2: "ws2 \<noteq> []" "spaces ws2" and ws3: "spaces ws3"
    and x: "NL \<notin> set x"
    and after: "DQ \<notin> set (first_line (ws3 @ ''}}'' @ rest))"
    and kw: "kw \<noteq> []" "\<not> isspace (hd kw)"
  shows "re_match (kw_pat kw) (directive ws1 kw ws2 x ws3 @ rest)
           = Some (length (directive ws1 kw ws2 x ws3), Some x)"
proof -
  let ?u = "ws3 @ ''}}'' @ rest"
  have a: "re_match [Lit ''}}''] (''}}'' @ rest) = Some (2, None)"
    by simp
  have b: "re_match [Star Space, Lit ''}}''] ?u = Some (length ws3 + 2, None)"
    using star_skip [of ws3 Space "''}}'' @ rest" "[Lit ''}}'']" 2 None] ws3 a
    by (simp add: spaces_def)
  have c: "re_match [Lit [DQ], Star Space, Lit ''}}''] (DQ # ?u) = Some (1 + (length ws3 + 2), None)"
    using lit_match [OF b, of "[DQ]"] by simp
  have d: "re_match [GroupStar Dot, Lit [DQ], Star Space, Lit ''}}''] (x @ DQ # ?u)
             = Some (length x + (1 + (length ws3 + 2)), Some x)"
    using group_take [OF x _ c] after by (simp add: first_line_def)
  have e: "re_match [Lit [DQ], GroupStar Dot, Lit [DQ], Star Space, Lit ''}}''] (DQ # x @ DQ # ?u)
             = Some (1 + (length x + (1 + (length ws3 + 2))), Some x)"
    using lit_match [OF d, of "[DQ]"] by simp
  have f: "re_match [Plus Space, Lit [DQ], GroupStar Dot, Lit [DQ], Star Space, Lit ''}}'']
             (ws2 @ DQ # x @ DQ # ?u)
             = Some (length ws2 + (1 + (length x + (1 + (length ws3 + 2)))), Some x)"
    using plus_skip [OF ws2(1) _ _ e, of Space] ws2(2) by (simp add: spaces_def)
  have g: "re_match [Lit kw, Plus Space, Lit [DQ], GroupStar Dot, Lit [DQ], Star Space, Lit ''}}'']
             (kw @ ws2 @ DQ # x @ DQ # ?u)
             = Some (length kw + (length ws2 + (1 + (length x + (1 + (length ws3 + 2))))), Some x)"
    using lit_match [OF f, of kw] by simp
  have h: "re_match [Star Space, Lit kw, Plus Space, Lit [DQ], GroupStar Dot, Lit [DQ], Star Space, Lit ''}}'']
             (ws1 @ kw @ ws2 @ DQ # x @ DQ # ?u)
             = Some (length ws1 + (length kw + (length ws2 + (1 + (length x + (1 + (length ws3 + 2)))))), Some x)"
    using star_skip [OF _ _ g, of ws1 Space] ws1 kw by (cases kw) (auto simp: spaces_def)
  have i: "re_match (kw_pat kw) (''{{'' @ ws1 @ kw @ ws2 @ DQ # x @ DQ # ?u)
             = Some (2 + (length ws1 + (length kw + (length ws2 + (1 + (length x + (1 + (length ws3 + 2))))))), Some x)"
    unfolding kw_pat_def using lit_match [OF h, of "''{{''"] by simp
  then show ?thesis by (simp add: directive_def)
qed


lemma py_in_sublist: "py_in sub s = sublist sub s"
  by (induction s) (auto simp: sublist_Cons_right)

lemma py_in_append: "py_in sub (pre @ sub @ post)"
  by (simp add: py_in_sublist)

lemma re_match_no_brace:
  "c \<noteq> CHR ''{'' \<Longrightarrow> re_match (kw_pat kw) (c # cs) = None"
  by (simp add: kw_pat_def)

lemma re_search_skip:
  "CHR ''{'' \<notin> set pre \<Longrightarrow> s \<noteq> [] \<Longrightarrow> re_search (kw_pat kw) (pre @ s) = re_search (kw_pat kw) s"
  by (induction pre) (auto simp: re_match_no_brace)

lemma directive_nonempty: "directive ws1 kw ws2 x ws3 \<noteq> []"
  by (simp add: directive_def)

lemma re_search_directive:
  assumes "CHR ''{'' \<notin> set pre" "spaces ws1" "ws2 \<noteq> []" "spaces ws2" "spaces ws3"
    "NL \<notin> set x" "DQ \<notin> set (first_line (ws3 @ ''}}'' @ rest))"
    "kw \<noteq> []" "\<not> isspace (hd kw)"
  shows "re_search (kw_pat kw) (pre @ directive ws1 kw ws2 x ws3 @ rest)
           = Some (directive ws1 kw ws2 x ws3, Some x)"
proof -
  let ?d = "directive ws1 kw ws2 x ws3"
  obtain c cs where dc: "?d @ rest = c # cs"
    using directive_nonempty [of ws1 kw ws2 x ws3] by (cases "?d @ rest") auto
  have "re_search (kw_pat kw) (pre @ ?d @ rest) = re_search (kw_pat kw) (?d @ rest)"
    using assms(1) directive_nonempty by (intro re_search_skip) auto
  also have "\<dots> = Some (take (length ?d) (?d @ rest), Some x)"
    using match_directive [OF assms(2-9)] unfolding dc by simp
  finally show ?thesis by simp
qed

lemma replace_absent: "old \<noteq> [] \<Longrightarrow> \<not> py_in old s \<Longrightarrow> replace s old new = s"
proof (induction s)
  case Nil
  then show ?case by (subst replace.simps) simp
next
  case (Cons c s)
  then show ?case by (subst replace.simps) auto
qed

lemma replace_here:
  "old \<noteq> [] \<Longrightarrow> replace (old @ s) old new = new @ replace s old new"
  by (subst replace.simps) simp

lemma replace_skip:
  "old \<noteq> [] \<Longrightarrow> hd old \<notin> set pre \<Longrightarrow> replace (pre @ s) old new = pre @ replace s old new"
proof (induction pre)
  case Nil
  then show ?case by simp
next
  case (Cons c pre)
  have "\<not> prefix old (c # pre @ s)"
    using Cons.prems by (cases old) auto
  with Cons show ?case by (subst replace.simps) simp
qed


lemma replace_Cons_noprefix:
  "old \<noteq> [] \<Longrightarrow> \<not> prefix old (c # s) \<Longrightarrow> replace (c # s) old new = c # replace s old new"
  by (subst replace.simps) simp

lemma has_title_directive:
  "ws1 = [] \<or> ws1 = '' '' \<Longrightarrow> has_title (pre @ directive ws1 ''title'' ws2 x ws3 @ rest)"
  unfolding has_title_def directive_def py_in_sublist sublist_def
  apply (erule disjE)
   apply (rule disjI2, rule exI [of _ pre], simp)
  apply (rule disjI1, rule exI [of _ pre], simp)
  done

lemma has_desc_directive:
  "ws1 = [] \<or> ws1 = '' '' \<Longrightarrow> has_desc (pre @ directive ws1 ''desc'' ws2 x ws3 @ rest)"
  unfolding has_desc_def directive_def py_in_sublist sublist_def
  apply (erule disjE)
   apply (rule disjI2, rule exI [of _ pre], simp)
  apply (rule disjI1, rule exI [of _ pre], simp)
  done

lemma spaces_lead: "ws1 = [] \<or> ws1 = '' '' \<Longrightarrow> spaces ws1"
  by (auto simp: spaces_def isspace_def)

lemma hd_directive: "hd (directive ws1 kw ws2 x ws3) = CHR ''{''"
  by (simp add: directive_def)

lemma title_step_directive:
  assumes "CHR ''{'' \<notin> set pre" "ws1 = [] \<or> ws1 = '' ''" "ws2 \<noteq> []" "spaces ws2" "spaces ws3"
    "NL \<notin> set x" "DQ \<notin> set (first_line (ws3 @ ''}}'' @ rest))"
  shows "title_step h a (pre @ directive ws1 ''title'' ws2 x ws3 @ rest)
           = (set_title h a x,
              Inr (''# '' @ x @ [NL] @ pre @ replace rest (directive ws1 ''title'' ws2 x ws3) []))"
proof -
  let ?d = "directive ws1 ''title'' ws2 x ws3"
  have m: "re_search title_pat (pre @ ?d @ rest) = Some (?d, Some x)"
    unfolding title_pat_kw using assms spaces_lead [OF assms(2)]
    by (intro re_search_directive) auto
  have r: "replace (pre @ ?d @ rest) ?d [] = pre @ replace rest ?d []"
    using assms(1) directive_nonempty [of ws1 "''title''" ws2 x ws3]
    by (simp add: replace_skip hd_directive replace_here)
  show ?thesis
    using has_title_directive [OF assms(2)] m r by (simp add: title_step_def title_fn_def)
qed

lemma desc_step_directive:
  assumes "CHR ''{'' \<notin> set pre" "ws1 = [] \<or> ws1 = '' ''" "ws2 \<noteq> []" "spaces ws2" "spaces ws3"
    "NL \<notin> set x" "DQ \<notin> set (first_line (ws3 @ ''}}'' @ rest))"
  shows "desc_step h a (pre @ directive ws1 ''desc'' ws2 x ws3 @ rest)
           = (set_desc h a x, Inr (pre @ replace rest (directive ws1 ''desc'' ws2 x ws3) []))"
proof -
  let ?d = "directive ws1 ''desc'' ws2 x ws3"
  have m: "re_search desc_pat (pre @ ?d @ rest) = Some (?d, Some x)"
    unfolding desc_pat_kw using assms spaces_lead [OF assms(2)]
    by (intro re_search_directive) auto
  have r: "replace (pre @ ?d @ rest) ?d [] = pre @ replace rest ?d []"
    using assms(1) directive_nonempty [of ws1 "''desc''" ws2 x ws3]
    by (simp add: replace_skip hd_directive replace_here)
  show ?thesis
    using has_desc_directive [OF assms(2)] m r by (simp add: desc_step_def desc_fn_def)
qed

subsection \<open>Texts the patterns cannot match, and \<open>strip\<close>\<close>

lemma re_match_lit:
  "re_match p s = Some (n, g) \<Longrightarrow> Lit l \<in> set p \<Longrightarrow> set l \<subseteq> set s"
proof (induction p s arbitrary: n g rule: re_match.induct)
  case (2 l' r s)
  then show ?case
    by (auto split: if_splits option.splits dest: set_mono_prefix in_set_dropD)
next
  case (4 k r c cs)
  then show ?case by (auto split: if_splits option.splits)
next
  case (6 k r c cs)
  then show ?case by (auto split: if_splits option.splits)
next
  case (7 k r)
  then show ?case by (auto simp: empty_group_def split: option.splits)
next
  case (8 k r c cs)
  then show ?case by (auto simp: empty_group_def split: if_splits option.splits)
qed auto

lemma re_search_lit:
  "re_search p s = Some (m0, g) \<Longrightarrow> Lit l \<in> set p \<Longrightarrow> set l \<subseteq> set s"
proof (induction s)
  case Nil
  then show ?case by (auto split: option.splits dest: re_match_lit)
next
  case (Cons c s)
  then show ?case by (fastforce split: option.splits dest: re_match_lit)
qed

lemma no_quote_no_match:
  "DQ \<notin> set s \<Longrightarrow> re_search (kw_pat kw) s = None"
proof (rule ccontr)
  assume q: "DQ \<notin> set s" and "re_search (kw_pat kw) s \<noteq> None"
  then obtain m0 g where "re_search (kw_pat kw) s = Some (m0, g)" by auto
  from re_search_lit [OF this, of "[DQ]"] have "DQ \<in> set s" by (simp add: kw_pat_def)
  with q show False by simp
qed

lemma dropWhile_self: "xs = [] \<or> \<not> P (hd xs) \<Longrightarrow> dropWhile P xs = xs"
  by (cases xs) auto

lemma last_dropWhile_keep: "dropWhile P ys \<noteq> [] \<Longrightarrow> last (dropWhile P ys) = last ys"
  by (induction ys) (auto split: if_splits)

lemma strip_strip: "strip (strip s) = strip s"
proof -
  define t where "t = dropWhile isspace s"
  define v where "v = dropWhile isspace (rev t)"
  have t: "t = [] \<or> \<not> isspace (hd t)"
    unfolding t_def by (metis hd_dropWhile)
  have v: "dropWhile isspace v = v" by (simp add: v_def)
  have "rev v = [] \<or> \<not> isspace (hd (rev v))"
  proof (cases "v = []")
    case True
    then show ?thesis by simp
  next
    case False
    then have "last v = last (rev t)" unfolding v_def by (rule last_dropWhile_keep)
    moreover from False have tne: "t \<noteq> []" by (auto simp: v_def)
    ultimately have "hd (rev v) = hd t" using False by (simp add: hd_rev last_rev)
    with t tne show ?thesis by simp
  qed
  then have "dropWhile isspace (rev v) = rev v" by (rule dropWhile_self)
  then have "strip (rev v) = rev v" using v by (simp add: strip_def)
  then show ?thesis by (simp add: strip_def v_def t_def)
qed

lemma md_set_title [simp]: "md (set_title h a x ! b) = md (h ! b)"
  by (cases "a < length h") (auto simp: set_title_def nth_list_update list_update_beyond)

lemma desc_set_title [simp]: "desc (metadata (set_title h a x ! b)) = desc (metadata (h ! b))"
  by (cases "a < length h") (auto simp: set_title_def nth_list_update list_update_beyond)

lemma title_step_store:
  "title_step h a doc = (h1, r) \<Longrightarrow> h1 = h \<or> (\<exists>x. h1 = set_title h a x)"
  by (auto simp: title_step_def title_fn_def split: if_splits option.splits prod.splits)

lemma preprocess_md_stripped:
  "preprocess_md st h a doc = (h1, Inr (Ok d1)) \<Longrightarrow> strip d1 = d1"
  by (auto simp: preprocess_md_def strip_strip split: prod.splits sum.splits)

subsection \<open>The \<open>desc\<close> directive\<close>




subsection \<open>Malformed directives\<close>

text \<open>
  C4, as the claim states it, fails: a well-formed title directive followed by a \<open>desc\<close>
  token with no argument. The title has been written to the metadata when \<open>desc\<close>
  raises.
\<close>

theorem malformed_partial_counterexample:
  "preprocess_md blog_state blog_store 2 (title_A @ [NL] @ ''{{desc}}'')
     = (set_title blog_store 2 ''A'', Inl (UnwrapError (invalid_match ''desc''))) \<and>
   title (metadata (blog_store ! 2)) = [] \<and>
   title (metadata (set_title blog_store 2 ''A'' ! 2)) = ''A''"
  by code_simp

text \<open>
  C4, amended. When \<open>{{ title\<close> or \<open>{{title\<close> occurs in the text and the pattern of
  \<open>title\<close> matches nowhere (as in every text without a double quote), \<open>preprocess_md\<close>
  raises and the store is as it was, and the loop of \<open>preprocess_pages\<close> stops there
  with no text assigned. When the title step has gone through, \<open>{{ desc\<close> or \<open>{{desc\<close>
  occurs and the pattern of \<open>desc\<close> matches nowhere, \<open>preprocess_md\<close> raises; no text and
  no description has changed, and the store is as it was but for the title the title
  step may have set. A text with neither a title token nor a desc token raises in
  neither step.
\<close>

theorem malformed_directive:
  "(has_title doc \<and> (DQ \<notin> set doc \<or> re_search title_pat doc = None) \<longrightarrow>
      preprocess_md st h a doc = (h, Inl (UnwrapError (invalid_match ''title'')))) \<and>
   (has_title (md (h ! a)) \<and> re_search title_pat (md (h ! a)) = None \<longrightarrow>
      preprocess_each st h (a # ps) = (h, Some (UnwrapError (invalid_match ''title'')))) \<and>
   (title_step h a doc = (h1, Inr d1) \<and> has_desc d1 \<and>
      (DQ \<notin> set d1 \<or> re_search desc_pat d1 = None) \<longrightarrow>
      preprocess_md st h a doc = (h1, Inl (UnwrapError (invalid_match ''desc''))) \<and>
      (h1 = h \<or> (\<exists>x. h1 = set_title h a x)) \<and>
      (\<forall>b. md (h1 ! b) = md (h ! b) \<and> desc (metadata (h1 ! b)) = desc (metadata (h ! b)))) \<and>
   (\<not> has_title doc \<and> \<not> has_desc doc \<longrightarrow>
      preprocess_md st h a doc =
        (h, case posts_step st h doc of
              Inl e \<Rightarrow> Inl e
            | Inr d3 \<Rightarrow> Inr (Ok (strip (toc_step d3)))))"
proof (intro conjI impI)
  assume "has_title doc \<and> (DQ \<notin> set doc \<or> re_search title_pat doc = None)"
  then have "has_title doc" "re_search title_pat doc = None"
    using no_quote_no_match [of doc "''title''"] by (auto simp: title_pat_kw)
  then show "preprocess_md st h a doc = (h, Inl (UnwrapError (invalid_match ''title'')))"
    by (simp add: preprocess_md_def title_step_def title_fn_def)
next
  assume "has_title (md (h ! a)) \<and> re_search title_pat (md (h ! a)) = None"
  then show "preprocess_each st h (a # ps) = (h, Some (UnwrapError (invalid_match ''title'')))"
    by (simp add: preprocess_md_def title_step_def title_fn_def)
next
  assume a: "title_step h a doc = (h1, Inr d1) \<and> has_desc d1 \<and>
      (DQ \<notin> set d1 \<or> re_search desc_pat d1 = None)"
  then have d: "has_desc d1" "re_search desc_pat d1 = None"
    using no_quote_no_match [of d1 "''desc''"] by (auto simp: desc_pat_kw)
  from a have t: "title_step h a doc = (h1, Inr d1)" by simp
  from t d show "preprocess_md st h a doc = (h1, Inl (UnwrapError (invalid_match ''desc'')))"
    by (simp add: preprocess_md_def desc_step_def desc_fn_def)
  from title_step_store [OF t] show "h1 = h \<or> (\<exists>x. h1 = set_title h a x)" .
  then show "\<forall>b. md (h1 ! b) = md (h ! b) \<and> desc (metadata (h1 ! b)) = desc (metadata (h ! b))"
    by auto
next
  assume "\<not> has_title doc \<and> \<not> has_desc doc"
  then show "preprocess_md st h a doc =
        (h, case posts_step st h doc of
              Inl e \<Rightarrow> Inl e
            | Inr d3 \<Rightarrow> Inr (Ok (strip (toc_step d3))))"
    by (simp add: preprocess_md_def title_step_def desc_step_def split: sum.splits)
qed

theorem malformed_directive_witness:
  "has_title ''{{ title }}'' \<and> DQ \<notin> set ''{{ title }}'' \<and>
   preprocess_md blog_state blog_store 2 ''{{ title }}''
     = (blog_store, Inl (UnwrapError (invalid_match ''title''))) \<and>
   preprocess_each blog_state (set_md blog_store 2 ''{{ title }}'') [2, 0]
     = (set_md blog_store 2 ''{{ title }}'', Some (UnwrapError (invalid_match ''title''))) \<and>
   title_step blog_store 2 (title_A @ [NL] @ ''{{desc}}'')
     = (set_title blog_store 2 ''A'', Inr (''# A'' @ [NL] @ [NL] @ ''{{desc}}'')) \<and>
   has_desc (''# A'' @ [NL] @ [NL] @ ''{{desc}}'') \<and>
   DQ \<notin> set (''# A'' @ [NL] @ [NL] @ ''{{desc}}'') \<and>
   preprocess_md blog_state blog_store 2 (title_A @ [NL] @ ''{{desc}}'')
     = (set_title blog_store 2 ''A'', Inl (UnwrapError (invalid_match ''desc''))) \<and>
   \<not> has_title ''Body text'' \<and> \<not> has_desc ''Body text'' \<and>
   preprocess_md blog_state blog_store 2 ''Body text'' = (blog_store, Inr (Ok ''Body text''))"
proof -
  let ?bad = "''{{ title }}''"
  let ?h = "set_md blog_store 2 ?bad"
  let ?d1 = "''# A'' @ [NL] @ [NL] @ ''{{desc}}''"
  have a1: "has_title ?bad" by code_simp
  have a2: "DQ \<notin> set ?bad" by simp
  have a3: "md (?h ! 2) = ?bad" by code_simp
  have a4: "re_search title_pat ?bad = None" by code_simp
  have b1: "title_step blog_store 2 (title_A @ [NL] @ ''{{desc}}'')
              = (set_title blog_store 2 ''A'', Inr ?d1)" by code_simp
  have b2: "has_desc ?d1" by code_simp
  have b3: "DQ \<notin> set ?d1" by simp
  have c1: "\<not> has_title ''Body text''" "\<not> has_desc ''Body text''" by code_simp+
  have c2: "posts_step blog_state blog_store ''Body text'' = Inr ''Body text''" by code_simp
  have c3: "strip (toc_step ''Body text'') = ''Body text''" by code_simp
  have r1: "preprocess_md blog_state blog_store 2 ?bad
              = (blog_store, Inl (UnwrapError (invalid_match ''title'')))"
    using malformed_directive [of ?bad blog_state blog_store 2] a1 a2 by blast
  have r2: "preprocess_each blog_state ?h [2, 0]
              = (?h, Some (UnwrapError (invalid_match ''title'')))"
    using malformed_directive [of _ blog_state ?h 2 "[0]"] a1 a3 a4 by simp
  have r3: "preprocess_md blog_state blog_store 2 (title_A @ [NL] @ ''{{desc}}'')
              = (set_title blog_store 2 ''A'', Inl (UnwrapError (invalid_match ''desc'')))"
    using malformed_directive [of "title_A @ [NL] @ ''{{desc}}''" blog_state blog_store 2 _
            "set_title blog_store 2 ''A''" ?d1] b1 b2 b3 by blast
  have r4: "preprocess_md blog_state blog_store 2 ''Body text'' = (blog_store, Inr (Ok ''Body text''))"
    using malformed_directive [of "''Body text''" blog_state blog_store 2] c1 c2 c3 by simp
  from a1 a2 r1 r2 b1 b2 b3 r3 c1 r4 show ?thesis by blast
qed

subsection \<open>A directive that occurs twice\<close>




subsection \<open>A second pass of \<open>preprocess_md\<close>\<close>

text \<open>
  C7, as the claim states it, fails: of two different title directives the first pass
  leaves the second in the text, and the second pass takes it for the title and puts a
  second heading before the first. Of two different desc directives the first pass
  leaves the second as well, and the second pass sets the description again.
\<close>

theorem second_pass_counterexample:
  "preprocess_md blog_state blog_store 2 (title_A @ [NL] @ title_B)
     = (set_title blog_store 2 ''A'', Inr (Ok (''# A'' @ [NL] @ [NL] @ title_B))) \<and>
   preprocess_md blog_state (set_title blog_store 2 ''A'') 2 (''# A'' @ [NL] @ [NL] @ title_B)
     = (set_title (set_title blog_store 2 ''A'') 2 ''B'', Inr (Ok (''# B'' @ [NL] @ ''# A''))) \<and>
   preprocess_md blog_state blog_store 2
       (directive [] ''desc'' '' '' ''A'' [] @ [NL] @ directive [] ''desc'' '' '' ''B'' [])
     = (set_desc blog_store 2 ''A'', Inr (Ok (directive [] ''desc'' '' '' ''B'' []))) \<and>
   preprocess_md blog_state (set_desc blog_store 2 ''A'') 2 (directive [] ''desc'' '' '' ''B'' [])
     = (set_desc (set_desc blog_store 2 ''A'') 2 ''B'', Inr (Ok []))"
  by code_simp

lemma set_replace_subset: "set (replace s old new) \<subseteq> set s \<union> set new"
proof (induction s old new rule: replace.induct)
  case (1 s old new)
  show ?case
  proof (cases "old = []")
    case True
    then show ?thesis by (subst replace.simps) auto
  next
    case False
    show ?thesis
    proof (cases "prefix old s")
      case True
      have "set (drop (length old) s) \<subseteq> set s" by (rule set_drop_subset)
      with 1(1) [OF False True] False True show ?thesis
        by (subst replace.simps) auto
    next
      case np: False
      show ?thesis
      proof (cases s)
        case Nil
        with False np show ?thesis by (subst replace.simps) simp
      next
        case (Cons c cs)
        with 1(2) [OF False np Cons] False np show ?thesis
          by (subst replace.simps) auto
      qed
    qed
  qed
qed

lemma set_strip_subset: "set (strip s) \<subseteq> set s"
  by (auto simp: strip_def dest!: set_dropWhileD)

lemma py_in_set: "py_in sub s \<Longrightarrow> set sub \<subseteq> set s"
  by (auto simp: py_in_sublist sublist_def)

lemma no_brace_no_token:
  "CHR ''{'' \<notin> set s \<Longrightarrow> \<not> has_title s \<and> \<not> has_desc s \<and> \<not> has_posts s"
  by (auto simp: has_title_def has_desc_def has_posts_def dest!: py_in_set)

lemma replace_prefix_copy:
  "old \<noteq> [] \<Longrightarrow> new \<noteq> [] \<Longrightarrow> hd old \<notin> set u \<Longrightarrow> hd new \<notin> set u \<Longrightarrow>
   prefix u (replace cs old new) \<Longrightarrow> prefix u cs"
proof (induction u arbitrary: cs)
  case Nil
  then show ?case by simp
next
  case (Cons a u)
  show ?case
  proof (cases "prefix old cs")
    case True
    with Cons.prems(1) have "replace cs old new = new @ replace (drop (length old) cs) old new"
      by (subst replace.simps) simp
    with Cons.prems(2,4,5) show ?thesis by (cases new) auto
  next
    case False
    show ?thesis
    proof (cases cs)
      case Nil
      with Cons.prems(1,5) False show ?thesis by (subst (asm) replace.simps) simp
    next
      case cs: (Cons c cs')
      with False Cons.prems(1) have "replace cs old new = c # replace cs' old new"
        by (simp add: replace_Cons_noprefix)
      with Cons.prems Cons.IH [of cs'] cs show ?thesis by auto
    qed
  qed
qed

lemma toc_replaced: "\<not> py_in ''[toc]'' (replace s ''[toc]'' ''[TOC]'')"
proof (induction "length s" arbitrary: s rule: less_induct)
  case less
  show ?case
  proof (cases "prefix ''[toc]'' s")
    case True
    then obtain t where s: "s = ''[toc]'' @ t" by (auto simp: prefix_def)
    then have "replace s ''[toc]'' ''[TOC]'' = ''[TOC]'' @ replace t ''[toc]'' ''[TOC]''"
      by (simp add: replace_here del: append.simps)
    moreover from s have "\<not> py_in ''[toc]'' (replace t ''[toc]'' ''[TOC]'')"
      by (intro less) simp
    ultimately show ?thesis by simp
  next
    case np: False
    show ?thesis
    proof (cases s)
      case Nil
      then show ?thesis by (subst replace.simps) simp
    next
      case (Cons c cs)
      with np have r: "replace s ''[toc]'' ''[TOC]'' = c # replace cs ''[toc]'' ''[TOC]''"
        by (simp add: replace_Cons_noprefix)
      from Cons have ih: "\<not> py_in ''[toc]'' (replace cs ''[toc]'' ''[TOC]'')"
        by (intro less) simp
      have "\<not> prefix ''[toc]'' (c # replace cs ''[toc]'' ''[TOC]'')"
      proof
        assume p: "prefix ''[toc]'' (c # replace cs ''[toc]'' ''[TOC]'')"
        note q = p [unfolded Cons_prefix_Cons]
        from q have "CHR ''['' = c" by (rule conjunct1)
        then have c: "c = CHR ''[''" by (rule sym)
        from q have pp: "prefix ''toc]'' (replace cs ''[toc]'' ''[TOC]'')" by (rule conjunct2)
        have "prefix ''toc]'' cs"
        proof (rule replace_prefix_copy)
          show "prefix ''toc]'' (replace cs ''[toc]'' ''[TOC]'')" by (rule pp)
        qed simp_all
        with c np Cons show False by simp
      qed
      with ih r show ?thesis by simp
    qed
  qed
qed

lemma toc_step_no_toc: "\<not> py_in ''[toc]'' (toc_step s)"
  by (simp add: toc_step_def toc_replaced)

lemma sublist_strip: "sublist (strip s) s"
proof -
  have "suffix (dropWhile isspace s) s" by (rule suffix_dropWhile)
  moreover have "prefix (strip s) (dropWhile isspace s)"
  proof -
    have "suffix (dropWhile isspace (rev (dropWhile isspace s))) (rev (dropWhile isspace s))"
      by (rule suffix_dropWhile)
    then show ?thesis by (simp add: strip_def suffix_to_prefix)
  qed
  ultimately obtain zs ys where "s = zs @ dropWhile isspace s"
    "dropWhile isspace s = strip s @ ys"
    by (auto simp: prefix_def suffix_def)
  then have "s = zs @ strip s @ ys" by simp
  then show ?thesis unfolding sublist_def by blast
qed

lemma py_in_strip: "py_in sub (strip s) \<Longrightarrow> py_in sub s"
  unfolding py_in_sublist using sublist_strip sublist_order.order_trans by blast

lemma preprocess_md_no_toc:
  "preprocess_md st h a doc = (h1, Inr (Ok d1)) \<Longrightarrow> \<not> py_in ''[toc]'' d1"
  by (auto simp: preprocess_md_def split: prod.splits sum.splits
           dest!: py_in_strip simp: toc_step_no_toc)

lemma second_pass_steps:
  assumes "preprocess_md st h a doc = (h1, Inr (Ok d1))"
  shows "strip d1 = d1" "toc_step d1 = d1"
    "\<not> has_title d1 \<Longrightarrow> title_step h1 a d1 = (h1, Inr d1)"
    "\<not> has_desc d1 \<Longrightarrow> desc_step h1 a d1 = (h1, Inr d1)"
    "\<not> has_title d1 \<Longrightarrow> \<not> has_desc d1 \<Longrightarrow>
       preprocess_md st h1 a d1 =
         (h1, case posts_step st h1 d1 of
                Inl e \<Rightarrow> Inl e
              | Inr d3 \<Rightarrow> Inr (Ok (strip (toc_step d3))))"
    "\<not> has_title d1 \<Longrightarrow> \<not> has_desc d1 \<Longrightarrow> \<not> has_posts d1 \<Longrightarrow>
       preprocess_md st h1 a d1 = (h1, Inr (Ok d1))"
proof -
  show s: "strip d1 = d1" using assms by (rule preprocess_md_stripped)
  show t: "toc_step d1 = d1" using preprocess_md_no_toc [OF assms] by (simp add: toc_step_def)
  show "\<not> has_title d1 \<Longrightarrow> title_step h1 a d1 = (h1, Inr d1)" by (simp add: title_step_def)
  show "\<not> has_desc d1 \<Longrightarrow> desc_step h1 a d1 = (h1, Inr d1)" by (simp add: desc_step_def)
  show p: "\<not> has_title d1 \<Longrightarrow> \<not> has_desc d1 \<Longrightarrow>
       preprocess_md st h1 a d1 =
         (h1, case posts_step st h1 d1 of
                Inl e \<Rightarrow> Inl e
              | Inr d3 \<Rightarrow> Inr (Ok (strip (toc_step d3))))"
    by (simp add: preprocess_md_def title_step_def desc_step_def split: sum.splits)
  show "\<not> has_title d1 \<Longrightarrow> \<not> has_desc d1 \<Longrightarrow> \<not> has_posts d1 \<Longrightarrow>
       preprocess_md st h1 a d1 = (h1, Inr (Ok d1))"
    by (simp add: p posts_step_def s t)
qed

lemma set_toc_step: "CHR ''{'' \<notin> set s \<Longrightarrow> CHR ''{'' \<notin> set (toc_step s)"
  using set_replace_subset [of s "''[toc]''" "''[TOC]''"] by (auto simp: toc_step_def)

lemma single_title_twice:
  assumes "CHR ''{'' \<notin> set pre" "ws1 = [] \<or> ws1 = '' ''" "ws2 \<noteq> []" "spaces ws2" "spaces ws3"
    "NL \<notin> set x" "DQ \<notin> set (first_line (ws3 @ ''}}'' @ rest))"
    and "CHR ''{'' \<notin> set x" "CHR ''{'' \<notin> set rest"
    and "d1 = strip (toc_step (''# '' @ x @ [NL] @ pre @ rest))"
  shows "preprocess_md st h a (pre @ directive ws1 ''title'' ws2 x ws3 @ rest)
           = (set_title h a x, Inr (Ok d1)) \<and>
         preprocess_md st (set_title h a x) a d1 = (set_title h a x, Inr (Ok d1))"
proof -
  let ?d = "directive ws1 ''title'' ws2 x ws3"
  let ?out = "''# '' @ x @ [NL] @ pre @ rest"
  have "CHR ''{'' \<in> set ?d" by (simp add: directive_def)
  with assms(9) have "\<not> set ?d \<subseteq> set rest" by blast
  then have "\<not> py_in ?d rest" using py_in_set by blast
  then have "replace rest ?d [] = rest"
    using directive_nonempty by (intro replace_absent) auto
  with title_step_directive [OF assms(1-7), of h a]
  have t: "title_step h a (pre @ ?d @ rest) = (set_title h a x, Inr ?out)" by simp
  from assms(1,8,9) have nb: "CHR ''{'' \<notin> set ?out" by simp
  from no_brace_no_token [OF nb]
  have first: "preprocess_md st h a (pre @ ?d @ rest) = (set_title h a x, Inr (Ok d1))"
    by (simp add: preprocess_md_def t desc_step_def posts_step_def assms(10))
  from nb have "CHR ''{'' \<notin> set (toc_step ?out)" by (rule set_toc_step)
  then have "CHR ''{'' \<notin> set d1"
    unfolding assms(10) using set_strip_subset by blast
  from no_brace_no_token [OF this] second_pass_steps(6) [OF first]
  have "preprocess_md st (set_title h a x) a d1 = (set_title h a x, Inr (Ok d1))" by blast
  with first show ?thesis by simp
qed

lemma py_in_skip_brace:
  "CHR ''{'' \<notin> set pre \<Longrightarrow> py_in (CHR ''{'' # k) (pre @ s) = py_in (CHR ''{'' # k) s"
  by (induction pre) auto

lemma py_in_braces:
  assumes "CHR ''{'' \<notin> set v"
  shows "py_in (CHR ''{'' # CHR ''{'' # k) (CHR ''{'' # CHR ''{'' # v) = prefix k v"
proof -
  have "\<not> py_in (CHR ''{'' # CHR ''{'' # k) v"
    using assms py_in_set by fastforce
  moreover have "\<not> prefix (CHR ''{'' # CHR ''{'' # k) (CHR ''{'' # v)"
    using assms by (cases v) auto
  ultimately show ?thesis by simp
qed

lemma spaces_no_brace: "spaces ws \<Longrightarrow> CHR ''{'' \<notin> set ws"
  by (auto simp: spaces_def)


lemma directive_braces:
  "directive ws1 kw ws2 x ws3
     = CHR ''{'' # CHR ''{'' # (ws1 @ kw @ ws2 @ [DQ] @ x @ [DQ] @ ws3 @ ''}}'')"
  by (simp add: directive_def)

lemma py_in_directive_doc:
  assumes "CHR ''{'' \<notin> set pre" "CHR ''{'' \<notin> set (ws1 @ kw @ ws2 @ x @ ws3 @ rest)"
  shows "py_in (CHR ''{'' # CHR ''{'' # k) (pre @ directive ws1 kw ws2 x ws3 @ rest)
           = prefix k (ws1 @ kw @ ws2 @ [DQ] @ x @ [DQ] @ ws3 @ ''}}'' @ rest)"
proof -
  have "CHR ''{'' \<notin> set (ws1 @ kw @ ws2 @ [DQ] @ x @ [DQ] @ ws3 @ ''}}'' @ rest)"
    using assms(2) by simp
  from py_in_braces [OF this, of k] show ?thesis
    by (simp add: py_in_skip_brace [OF assms(1)] directive_braces)
qed

lemma not_prefix_title_desc:
  "ws1 = [] \<or> ws1 = '' '' \<Longrightarrow> v1 = [] \<or> v1 = '' '' \<Longrightarrow>
   \<not> prefix (ws1 @ ''title'' @ t) (v1 @ ''desc'' @ u)"
  by auto

lemma no_title_in_desc_doc:
  assumes "CHR ''{'' \<notin> set (pre @ y @ rest)" "v1 = [] \<or> v1 = '' ''" "spaces v2" "spaces v3"
  shows "\<not> has_title (pre @ directive v1 ''desc'' v2 y v3 @ rest)"
proof -
  have nb: "CHR ''{'' \<notin> set (v1 @ ''desc'' @ v2 @ y @ v3 @ rest)"
    using assms spaces_no_brace [OF assms(3)] spaces_no_brace [OF assms(4)] by auto
  from assms(1) have p: "CHR ''{'' \<notin> set pre" by simp
  have a: "\<not> prefix ('' '' @ ''title'' @ []) (v1 @ ''desc'' @ (v2 @ [DQ] @ y @ [DQ] @ v3 @ ''}}'' @ rest))"
    using assms(2) by (intro not_prefix_title_desc) simp_all
  have b: "\<not> prefix ([] @ ''title'' @ []) (v1 @ ''desc'' @ (v2 @ [DQ] @ y @ [DQ] @ v3 @ ''}}'' @ rest))"
    using assms(2) by (intro not_prefix_title_desc) simp_all
  have "\<not> py_in ''{{ title'' (pre @ directive v1 ''desc'' v2 y v3 @ rest)"
    using py_in_directive_doc [OF p nb, of "'' title''"] a by simp
  moreover have "\<not> py_in ''{{title'' (pre @ directive v1 ''desc'' v2 y v3 @ rest)"
    using py_in_directive_doc [OF p nb, of "''title''"] b by simp
  ultimately show ?thesis by (simp add: has_title_def)
qed

lemma replace_no_brace:
  "CHR ''{'' \<notin> set s \<Longrightarrow> replace s (directive ws1 kw ws2 x ws3) new = s"
proof (rule replace_absent)
  show "directive ws1 kw ws2 x ws3 \<noteq> []" by (rule directive_nonempty)
  assume "CHR ''{'' \<notin> set s"
  moreover have "CHR ''{'' \<in> set (directive ws1 kw ws2 x ws3)" by (simp add: directive_def)
  ultimately show "\<not> py_in (directive ws1 kw ws2 x ws3) s" using py_in_set by blast
qed

lemma no_brace_passes:
  assumes "CHR ''{'' \<notin> set s"
  shows "preprocess_md st h a s = (h, Inr (Ok (strip (toc_step s))))"
  using no_brace_no_token [OF assms]
  by (simp add: preprocess_md_def title_step_def desc_step_def posts_step_def)

lemma no_brace_once: "CHR ''{'' \<notin> set s \<Longrightarrow> CHR ''{'' \<notin> set (strip (toc_step s))"
  using set_toc_step [of s] set_strip_subset [of "toc_step s"] by blast

lemma no_brace_twice:
  assumes "CHR ''{'' \<notin> set s"
  shows "preprocess_md st h a (strip (toc_step s)) = (h, Inr (Ok (strip (toc_step s))))"
proof -
  from no_brace_passes [OF assms, of st h a] no_brace_no_token [OF no_brace_once [OF assms]]
  show ?thesis using second_pass_steps(6) by blast
qed

lemma after_steps:
  assumes "title_step h a doc = (h1, Inr d1)" "desc_step h1 a d1 = (h2, Inr d2)"
    "CHR ''{'' \<notin> set d2"
  shows "preprocess_md st h a doc = (h2, Inr (Ok (strip (toc_step d2))))"
  using no_brace_no_token [OF assms(3)] assms(1,2)
  by (simp add: preprocess_md_def posts_step_def)

lemma single_desc_twice:
  assumes "CHR ''{'' \<notin> set (pre @ rest)" "well_formed v1 v2 y v3 rest"
    and "once = strip (toc_step (pre @ rest))"
  shows "preprocess_md st h a (pre @ directive v1 ''desc'' v2 y v3 @ rest)
           = (set_desc h a y, Inr (Ok once)) \<and>
         preprocess_md st (set_desc h a y) a once = (set_desc h a y, Inr (Ok once))"
proof -
  let ?d = "directive v1 ''desc'' v2 y v3"
  from assms(2) have w: "v1 = [] \<or> v1 = '' ''" "v2 \<noteq> []" "spaces v2" "spaces v3"
    "NL \<notin> set y" "DQ \<notin> set (first_line (v3 @ ''}}'' @ rest))" and y: "CHR ''{'' \<notin> set y"
    by (simp_all add: well_formed_def)
  from assms(1) have p: "CHR ''{'' \<notin> set pre" and r: "CHR ''{'' \<notin> set rest" by simp_all
  have "\<not> has_title (pre @ ?d @ rest)"
    using assms(1) y w(1,3,4) by (intro no_title_in_desc_doc) simp_all
  then have t: "title_step h a (pre @ ?d @ rest) = (h, Inr (pre @ ?d @ rest))"
    by (simp add: title_step_def)
  have d: "desc_step h a (pre @ ?d @ rest) = (set_desc h a y, Inr (pre @ rest))"
    using desc_step_directive [OF p w, of h a] replace_no_brace [OF r] by simp
  have first: "preprocess_md st h a (pre @ ?d @ rest) = (set_desc h a y, Inr (Ok once))"
    unfolding assms(3) using t d assms(1) by (rule after_steps)
  have "preprocess_md st (set_desc h a y) a once = (set_desc h a y, Inr (Ok once))"
    unfolding assms(3) using assms(1) by (rule no_brace_twice)
  with first show ?thesis by simp
qed


lemma title_desc_twice:
  assumes "CHR ''{'' \<notin> set (pre @ mid @ rest)"
    "well_formed ws1 ws2 x ws3 (mid @ directive v1 ''desc'' v2 y v3 @ rest)"
    "well_formed v1 v2 y v3 rest"
    and "once = strip (toc_step (''# '' @ x @ [NL] @ pre @ mid @ rest))"
  shows "preprocess_md st h a
           (pre @ directive ws1 ''title'' ws2 x ws3 @ mid @ directive v1 ''desc'' v2 y v3 @ rest)
           = (set_desc (set_title h a x) a y, Inr (Ok once)) \<and>
         preprocess_md st (set_desc (set_title h a x) a y) a once
           = (set_desc (set_title h a x) a y, Inr (Ok once))"
proof -
  let ?dt = "directive ws1 ''title'' ws2 x ws3"
  let ?dd = "directive v1 ''desc'' v2 y v3"
  let ?out = "''# '' @ x @ [NL] @ pre @ mid @ rest"
  from assms(2) have wt: "ws1 = [] \<or> ws1 = '' ''" "ws2 \<noteq> []" "spaces ws2" "spaces ws3"
    "NL \<notin> set x" "DQ \<notin> set (first_line (ws3 @ ''}}'' @ mid @ ?dd @ rest))"
    and x: "CHR ''{'' \<notin> set x"
    by (simp_all add: well_formed_def)
  from assms(3) have wd: "v1 = [] \<or> v1 = '' ''" "v2 \<noteq> []" "spaces v2" "spaces v3"
    "NL \<notin> set y" "DQ \<notin> set (first_line (v3 @ ''}}'' @ rest))" and y: "CHR ''{'' \<notin> set y"
    by (simp_all add: well_formed_def)
  from assms(1) have p: "CHR ''{'' \<notin> set pre" and m: "CHR ''{'' \<notin> set mid"
    and r: "CHR ''{'' \<notin> set rest" by simp_all
  have nbd: "CHR ''{'' \<notin> set (v1 @ ''desc'' @ v2 @ y @ v3 @ rest)"
    using y r spaces_lead [OF wd(1)] wd(3,4) by (auto dest: spaces_no_brace)
  have np: "\<not> prefix (ws1 @ ''title'' @ (ws2 @ [DQ] @ x @ [DQ] @ ws3 @ ''}}''))
               (v1 @ ''desc'' @ (v2 @ [DQ] @ y @ [DQ] @ v3 @ ''}}'' @ rest))"
    using wt(1) wd(1) by (rule not_prefix_title_desc)
  have "\<not> py_in ?dt (mid @ ?dd @ rest)"
    unfolding directive_braces [of ws1 "''title''"] py_in_directive_doc [OF m nbd]
    using np by simp
  then have keep: "replace (mid @ ?dd @ rest) ?dt [] = mid @ ?dd @ rest"
    using directive_nonempty by (intro replace_absent) auto
  have t: "title_step h a (pre @ ?dt @ mid @ ?dd @ rest)
             = (set_title h a x, Inr ((''# '' @ x @ [NL] @ pre @ mid) @ ?dd @ rest))"
    using title_step_directive [OF p wt, of h a] keep by simp
  have nbp: "CHR ''{'' \<notin> set (''# '' @ x @ [NL] @ pre @ mid)" using x p m by simp
  have d: "desc_step (set_title h a x) a ((''# '' @ x @ [NL] @ pre @ mid) @ ?dd @ rest)
             = (set_desc (set_title h a x) a y, Inr ?out)"
    using desc_step_directive [OF nbp wd, of "set_title h a x" a] replace_no_brace [OF r] by simp
  have nb: "CHR ''{'' \<notin> set ?out" using x p m r by simp
  have first: "preprocess_md st h a (pre @ ?dt @ mid @ ?dd @ rest)
                 = (set_desc (set_title h a x) a y, Inr (Ok once))"
    unfolding assms(4) using t d nb by (rule after_steps)
  have "preprocess_md st (set_desc (set_title h a x) a y) a once
          = (set_desc (set_title h a x) a y, Inr (Ok once))"
    unfolding assms(4) using nb by (rule no_brace_twice)
  with first show ?thesis by simp
qed


lemma re_match_title_at_desc:
  "v1 = [] \<or> v1 = '' '' \<Longrightarrow>
   re_match (kw_pat ''title'') (CHR ''{'' # CHR ''{'' # v1 @ ''desc'' @ u) = None"
  by (auto simp: kw_pat_def isspace_def)

lemma re_search_skip_desc:
  assumes "CHR ''{'' \<notin> set pre" "v1 = [] \<or> v1 = '' ''" "spaces v2" "spaces v3"
    "CHR ''{'' \<notin> set y" "s \<noteq> []"
  shows "re_search (kw_pat ''title'') (pre @ directive v1 ''desc'' v2 y v3 @ s)
           = re_search (kw_pat ''title'') s"
proof -
  let ?v = "v1 @ ''desc'' @ v2 @ [DQ] @ y @ [DQ] @ v3 @ ''}}''"
  have nbv: "CHR ''{'' \<notin> set ?v"
    using assms(5) spaces_lead [OF assms(2)] assms(3,4) by (auto dest: spaces_no_brace)
  obtain c cs where v: "?v @ s = c # cs" and c: "c \<noteq> CHR ''{''"
    using assms(2) by auto
  have "re_search (kw_pat ''title'') (pre @ directive v1 ''desc'' v2 y v3 @ s)
          = re_search (kw_pat ''title'') (CHR ''{'' # CHR ''{'' # ?v @ s)"
    using re_search_skip [OF assms(1), of "directive v1 ''desc'' v2 y v3 @ s" "''title''"]
    by (simp add: directive_braces)
  also have "\<dots> = re_search (kw_pat ''title'') (CHR ''{'' # ?v @ s)"
    using re_match_title_at_desc [OF assms(2), of "v2 @ [DQ] @ y @ [DQ] @ v3 @ ''}}'' @ s"]
    by simp
  also have "\<dots> = re_search (kw_pat ''title'') (?v @ s)"
    unfolding v using c by (simp add: kw_pat_def)
  also have "\<dots> = re_search (kw_pat ''title'') s"
    using nbv assms(6) by (rule re_search_skip)
  finally show ?thesis .
qed

lemma replace_skip_desc:
  assumes "CHR ''{'' \<notin> set pre" "v1 = [] \<or> v1 = '' ''" "spaces v2" "spaces v3"
    "CHR ''{'' \<notin> set y" "ws1 = [] \<or> ws1 = '' ''"
  shows "replace (pre @ directive v1 ''desc'' v2 y v3 @ s) (directive ws1 ''title'' ws2 x ws3) new
           = pre @ directive v1 ''desc'' v2 y v3
               @ replace s (directive ws1 ''title'' ws2 x ws3) new"
proof -
  let ?v = "v1 @ ''desc'' @ v2 @ [DQ] @ y @ [DQ] @ v3 @ ''}}''"
  let ?dt = "directive ws1 ''title'' ws2 x ws3"
  have ne: "?dt \<noteq> []" by (rule directive_nonempty)
  have nbv: "CHR ''{'' \<notin> set ?v"
    using assms(5) spaces_lead [OF assms(2)] assms(3,4) by (auto dest: spaces_no_brace)
  obtain c cs where v: "?v @ s = c # cs" and c: "c \<noteq> CHR ''{''"
    using assms(2) by auto
  have np: "\<not> prefix (ws1 @ ''title'' @ (ws2 @ [DQ] @ x @ [DQ] @ ws3 @ ''}}''))
               (v1 @ ''desc'' @ (v2 @ [DQ] @ y @ [DQ] @ v3 @ ''}}'' @ s))"
    using assms(6,2) by (rule not_prefix_title_desc)
  have a: "\<not> prefix ?dt (CHR ''{'' # CHR ''{'' # ?v @ s)"
    using np by (simp add: directive_braces)
  have b: "\<not> prefix ?dt (CHR ''{'' # ?v @ s)"
    unfolding v using c by (simp add: directive_braces)
  have "replace (pre @ directive v1 ''desc'' v2 y v3 @ s) ?dt new
          = pre @ replace (CHR ''{'' # CHR ''{'' # ?v @ s) ?dt new"
    using replace_skip [OF ne, of pre "directive v1 ''desc'' v2 y v3 @ s" new] assms(1)
    by (simp add: hd_directive directive_braces [of v1])
  also have "replace (CHR ''{'' # CHR ''{'' # ?v @ s) ?dt new
               = CHR ''{'' # replace (CHR ''{'' # ?v @ s) ?dt new"
    using ne a by (rule replace_Cons_noprefix)
  also have "replace (CHR ''{'' # ?v @ s) ?dt new = CHR ''{'' # replace (?v @ s) ?dt new"
    using ne b by (rule replace_Cons_noprefix)
  also have "replace (?v @ s) ?dt new = ?v @ replace s ?dt new"
    using replace_skip [OF ne, of ?v s new] nbv by (simp add: hd_directive)
  finally show ?thesis by (simp add: directive_braces [of v1])
qed


lemma desc_title_twice:
  assumes "CHR ''{'' \<notin> set (pre @ mid @ rest)"
    "well_formed v1 v2 y v3 (mid @ rest)"
    "well_formed ws1 ws2 x ws3 rest"
    and "once = strip (toc_step (''# '' @ x @ [NL] @ pre @ mid @ rest))"
  shows "preprocess_md st h a
           (pre @ directive v1 ''desc'' v2 y v3 @ mid @ directive ws1 ''title'' ws2 x ws3 @ rest)
           = (set_desc (set_title h a x) a y, Inr (Ok once)) \<and>
         preprocess_md st (set_desc (set_title h a x) a y) a once
           = (set_desc (set_title h a x) a y, Inr (Ok once))"
proof -
  let ?dt = "directive ws1 ''title'' ws2 x ws3"
  let ?dd = "directive v1 ''desc'' v2 y v3"
  let ?doc = "pre @ ?dd @ mid @ ?dt @ rest"
  let ?out = "''# '' @ x @ [NL] @ pre @ mid @ rest"
  from assms(3) have wt: "ws1 = [] \<or> ws1 = '' ''" "ws2 \<noteq> []" "spaces ws2" "spaces ws3"
    "NL \<notin> set x" "DQ \<notin> set (first_line (ws3 @ ''}}'' @ rest))"
    and x: "CHR ''{'' \<notin> set x"
    by (simp_all add: well_formed_def)
  from assms(2) have wd: "v1 = [] \<or> v1 = '' ''" "v2 \<noteq> []" "spaces v2" "spaces v3"
    "NL \<notin> set y" "DQ \<notin> set (first_line (v3 @ ''}}'' @ mid @ rest))"
    and y: "CHR ''{'' \<notin> set y"
    by (simp_all add: well_formed_def)
  from assms(1) have p: "CHR ''{'' \<notin> set pre" and m: "CHR ''{'' \<notin> set mid"
    and r: "CHR ''{'' \<notin> set rest" by simp_all
  have ne: "mid @ ?dt @ rest \<noteq> []" using directive_nonempty by simp
  have "re_search title_pat ?doc = re_search (kw_pat ''title'') (mid @ ?dt @ rest)"
    unfolding title_pat_kw using p wd(1,3,4) y ne by (rule re_search_skip_desc)
  also have "\<dots> = Some (?dt, Some x)"
    using m spaces_lead [OF wt(1)] wt(2-6) by (intro re_search_directive) auto
  finally have s: "re_search title_pat ?doc = Some (?dt, Some x)" .
  have "replace ?doc ?dt [] = pre @ ?dd @ replace (mid @ ?dt @ rest) ?dt []"
    using p wd(1,3,4) y wt(1) by (rule replace_skip_desc)
  also have "replace (mid @ ?dt @ rest) ?dt [] = mid @ replace rest ?dt []"
    using m directive_nonempty [of ws1 "''title''" ws2 x ws3]
    by (simp add: replace_skip hd_directive replace_here)
  also have "replace rest ?dt [] = rest" using r by (rule replace_no_brace)
  finally have rp: "replace ?doc ?dt [] = pre @ ?dd @ mid @ rest" .
  have ht: "has_title ?doc"
    using has_title_directive [OF wt(1), of "pre @ ?dd @ mid" ws2 x ws3 rest] by simp
  have t: "title_step h a ?doc
             = (set_title h a x, Inr ((''# '' @ x @ [NL] @ pre) @ ?dd @ mid @ rest))"
    using ht s rp by (simp add: title_step_def title_fn_def)
  have nbp: "CHR ''{'' \<notin> set (''# '' @ x @ [NL] @ pre)" using x p by simp
  have mr: "CHR ''{'' \<notin> set (mid @ rest)" using m r by simp
  have d: "desc_step (set_title h a x) a ((''# '' @ x @ [NL] @ pre) @ ?dd @ mid @ rest)
             = (set_desc (set_title h a x) a y, Inr ?out)"
    using desc_step_directive [OF nbp wd, of "set_title h a x" a] replace_no_brace [OF mr]
    by simp
  have nb: "CHR ''{'' \<notin> set ?out" using x p m r by simp
  have first: "preprocess_md st h a ?doc = (set_desc (set_title h a x) a y, Inr (Ok once))"
    unfolding assms(4) using t d nb by (rule after_steps)
  have "preprocess_md st (set_desc (set_title h a x) a y) a once
          = (set_desc (set_title h a x) a y, Inr (Ok once))"
    unfolding assms(4) using nb by (rule no_brace_twice)
  with first show ?thesis by simp
qed


text \<open>
  C7, amended. A second pass changes nothing in its title and desc steps when the text
  the first pass returned holds no title token and no desc token, and returns that text
  when it holds no posts token either. The first pass leaves no such token for a document
  without a brace and for one whose only braces are those of one well-formed title
  directive, of one well-formed desc directive, or of one of each in either order: there
  two passes give the text and the store of one, with one heading and the description
  set once.
\<close>

theorem second_pass_unchanged:
  "(preprocess_md st h a doc = (h1, Inr (Ok d1)) \<and> \<not> has_title d1 \<and> \<not> has_desc d1 \<longrightarrow>
      title_step h1 a d1 = (h1, Inr d1) \<and> desc_step h1 a d1 = (h1, Inr d1) \<and>
      strip d1 = d1 \<and> toc_step d1 = d1 \<and>
      (\<not> has_posts d1 \<longrightarrow> preprocess_md st h1 a d1 = (h1, Inr (Ok d1)))) \<and>
   (CHR ''{'' \<notin> set (pre @ mid @ rest) \<longrightarrow>
      same_twice st h a (pre @ mid @ rest) h (strip (toc_step (pre @ mid @ rest))) \<and>
      (well_formed ws1 ws2 x ws3 rest \<longrightarrow>
         same_twice st h a (pre @ directive ws1 ''title'' ws2 x ws3 @ rest)
           (set_title h a x) (strip (toc_step (''# '' @ x @ [NL] @ pre @ rest)))) \<and>
      (well_formed v1 v2 y v3 rest \<longrightarrow>
         same_twice st h a (pre @ directive v1 ''desc'' v2 y v3 @ rest)
           (set_desc h a y) (strip (toc_step (pre @ rest)))) \<and>
      (well_formed ws1 ws2 x ws3 (mid @ directive v1 ''desc'' v2 y v3 @ rest) \<and>
       well_formed v1 v2 y v3 rest \<longrightarrow>
         same_twice st h a
           (pre @ directive ws1 ''title'' ws2 x ws3 @ mid @ directive v1 ''desc'' v2 y v3 @ rest)
           (set_desc (set_title h a x) a y)
           (strip (toc_step (''# '' @ x @ [NL] @ pre @ mid @ rest)))) \<and>
      (well_formed v1 v2 y v3 (mid @ rest) \<and> well_formed ws1 ws2 x ws3 rest \<longrightarrow>
         same_twice st h a
           (pre @ directive v1 ''desc'' v2 y v3 @ mid @ directive ws1 ''title'' ws2 x ws3 @ rest)
           (set_desc (set_title h a x) a y)
           (strip (toc_step (''# '' @ x @ [NL] @ pre @ mid @ rest)))))"
proof (intro conjI impI)
  assume a: "preprocess_md st h a doc = (h1, Inr (Ok d1)) \<and> \<not> has_title d1 \<and> \<not> has_desc d1"
  then have pm: "preprocess_md st h a doc = (h1, Inr (Ok d1))"
    and n1: "\<not> has_title d1" and n2: "\<not> has_desc d1" by blast+
  show "title_step h1 a d1 = (h1, Inr d1)" using pm n1 by (rule second_pass_steps(3))
  show "desc_step h1 a d1 = (h1, Inr d1)" using pm n2 by (rule second_pass_steps(4))
  show "strip d1 = d1" using pm by (rule second_pass_steps(1))
  show "toc_step d1 = d1" using pm by (rule second_pass_steps(2))
  assume n3: "\<not> has_posts d1"
  show "preprocess_md st h1 a d1 = (h1, Inr (Ok d1))"
    using pm n1 n2 n3 by (rule second_pass_steps(6))
next
  assume nb: "CHR ''{'' \<notin> set (pre @ mid @ rest)"
  show "same_twice st h a (pre @ mid @ rest) h (strip (toc_step (pre @ mid @ rest)))"
    unfolding same_twice_def using no_brace_passes [OF nb] no_brace_twice [OF nb] by blast
next
  assume nb: "CHR ''{'' \<notin> set (pre @ mid @ rest)" and w: "well_formed ws1 ws2 x ws3 rest"
  from nb have p: "CHR ''{'' \<notin> set pre" and r: "CHR ''{'' \<notin> set rest" by simp_all
  from w have wt: "ws1 = [] \<or> ws1 = '' ''" "ws2 \<noteq> []" "spaces ws2" "spaces ws3"
    "NL \<notin> set x" "DQ \<notin> set (first_line (ws3 @ ''}}'' @ rest))"
    and x: "CHR ''{'' \<notin> set x"
    by (simp_all add: well_formed_def)
  show "same_twice st h a (pre @ directive ws1 ''title'' ws2 x ws3 @ rest)
           (set_title h a x) (strip (toc_step (''# '' @ x @ [NL] @ pre @ rest)))"
    unfolding same_twice_def using p wt x r refl by (rule single_title_twice)
next
  assume nb: "CHR ''{'' \<notin> set (pre @ mid @ rest)" and w: "well_formed v1 v2 y v3 rest"
  from nb have pr: "CHR ''{'' \<notin> set (pre @ rest)" by simp
  show "same_twice st h a (pre @ directive v1 ''desc'' v2 y v3 @ rest)
           (set_desc h a y) (strip (toc_step (pre @ rest)))"
    unfolding same_twice_def using pr w refl by (rule single_desc_twice)
next
  assume nb: "CHR ''{'' \<notin> set (pre @ mid @ rest)"
    and w: "well_formed ws1 ws2 x ws3 (mid @ directive v1 ''desc'' v2 y v3 @ rest) \<and>
            well_formed v1 v2 y v3 rest"
  from w have w1: "well_formed ws1 ws2 x ws3 (mid @ directive v1 ''desc'' v2 y v3 @ rest)"
    and w2: "well_formed v1 v2 y v3 rest" by blast+
  show "same_twice st h a
           (pre @ directive ws1 ''title'' ws2 x ws3 @ mid @ directive v1 ''desc'' v2 y v3 @ rest)
           (set_desc (set_title h a x) a y)
           (strip (toc_step (''# '' @ x @ [NL] @ pre @ mid @ rest)))"
    unfolding same_twice_def using nb w1 w2 refl by (rule title_desc_twice)
next
  assume nb: "CHR ''{'' \<notin> set (pre @ mid @ rest)"
    and w: "well_formed v1 v2 y v3 (mid @ rest) \<and> well_formed ws1 ws2 x ws3 rest"
  from w have w1: "well_formed v1 v2 y v3 (mid @ rest)"
    and w2: "well_formed ws1 ws2 x ws3 rest" by blast+
  show "same_twice st h a
           (pre @ directive v1 ''desc'' v2 y v3 @ mid @ directive ws1 ''title'' ws2 x ws3 @ rest)
           (set_desc (set_title h a x) a y)
           (strip (toc_step (''# '' @ x @ [NL] @ pre @ mid @ rest)))"
    unfolding same_twice_def using nb w1 w2 refl by (rule desc_title_twice)
qed

theorem second_pass_unchanged_witness:
  "preprocess_md blog_state blog_store 2 (title_A @ [NL] @ ''Body text'')
     = (set_title blog_store 2 ''A'', Inr (Ok (''# A'' @ [NL] @ [NL] @ ''Body text''))) \<and>
   \<not> has_title (''# A'' @ [NL] @ [NL] @ ''Body text'') \<and>
   \<not> has_desc (''# A'' @ [NL] @ [NL] @ ''Body text'') \<and>
   \<not> has_posts (''# A'' @ [NL] @ [NL] @ ''Body text'') \<and>
   preprocess_md blog_state (set_title blog_store 2 ''A'') 2 (''# A'' @ [NL] @ [NL] @ ''Body text'')
     = (set_title blog_store 2 ''A'', Inr (Ok (''# A'' @ [NL] @ [NL] @ ''Body text''))) \<and>
   CHR ''{'' \<notin> set ([] @ [NL] @ [NL] @ ''Body text'') \<and>
   well_formed [] '' '' ''A'' [] ([NL] @ ''Body text'') \<and>
   well_formed [] '' '' ''D'' [] ([NL] @ ''Body text'') \<and>
   well_formed [] '' '' ''A'' [] ([NL] @ directive [] ''desc'' '' '' ''D'' [] @ [NL] @ ''Body text'') \<and>
   well_formed [] '' '' ''D'' [] ([NL] @ [NL] @ ''Body text'') \<and>
   same_twice blog_state blog_store 2 ([] @ [NL] @ [NL] @ ''Body text'') blog_store
     (strip (toc_step ([] @ [NL] @ [NL] @ ''Body text''))) \<and>
   same_twice blog_state blog_store 2
     ([] @ directive [] ''title'' '' '' ''A'' [] @ [NL] @ ''Body text'')
     (set_title blog_store 2 ''A'')
     (strip (toc_step (''# '' @ ''A'' @ [NL] @ [] @ [NL] @ ''Body text''))) \<and>
   same_twice blog_state blog_store 2
     ([] @ directive [] ''desc'' '' '' ''D'' [] @ [NL] @ ''Body text'')
     (set_desc blog_store 2 ''D'')
     (strip (toc_step ([] @ [NL] @ ''Body text''))) \<and>
   same_twice blog_state blog_store 2
     ([] @ directive [] ''title'' '' '' ''A'' [] @ [NL]
        @ directive [] ''desc'' '' '' ''D'' [] @ [NL] @ ''Body text'')
     (set_desc (set_title blog_store 2 ''A'') 2 ''D'')
     (strip (toc_step (''# '' @ ''A'' @ [NL] @ [] @ [NL] @ [NL] @ ''Body text''))) \<and>
   same_twice blog_state blog_store 2
     ([] @ directive [] ''desc'' '' '' ''D'' [] @ [NL]
        @ directive [] ''title'' '' '' ''A'' [] @ [NL] @ ''Body text'')
     (set_desc (set_title blog_store 2 ''A'') 2 ''D'')
     (strip (toc_step (''# '' @ ''A'' @ [NL] @ [] @ [NL] @ [NL] @ ''Body text''))) \<and>
   strip (toc_step (''# '' @ ''A'' @ [NL] @ [] @ [NL] @ [NL] @ ''Body text''))
     = ''# A'' @ [NL] @ [NL] @ [NL] @ ''Body text'' \<and>
   strip (toc_step ([] @ [NL] @ ''Body text'')) = ''Body text''"
proof -
  let ?once = "''# A'' @ [NL] @ [NL] @ ''Body text''"
  have first: "preprocess_md blog_state blog_store 2 (title_A @ [NL] @ ''Body text'')
     = (set_title blog_store 2 ''A'', Inr (Ok ?once))"
    by code_simp
  have h: "\<not> has_title ?once" "\<not> has_desc ?once" "\<not> has_posts ?once"
    by code_simp+
  have nb: "CHR ''{'' \<notin> set ([] @ [NL] @ [NL] @ ''Body text'')" by simp
  have w: "well_formed [] '' '' ''A'' [] ([NL] @ ''Body text'')"
    "well_formed [] '' '' ''D'' [] ([NL] @ ''Body text'')"
    "well_formed [] '' '' ''A'' [] ([NL] @ directive [] ''desc'' '' '' ''D'' [] @ [NL] @ ''Body text'')"
    "well_formed [] '' '' ''D'' [] ([NL] @ [NL] @ ''Body text'')"
    by code_simp+
  have e: "strip (toc_step (''# '' @ ''A'' @ [NL] @ [] @ [NL] @ [NL] @ ''Body text''))
             = ''# A'' @ [NL] @ [NL] @ [NL] @ ''Body text''"
    "strip (toc_step ([] @ [NL] @ ''Body text'')) = ''Body text''"
    by code_simp+
  note T = second_pass_unchanged [where st = blog_state and h = blog_store and a = 2
      and doc = "title_A @ [NL] @ ''Body text''" and ?h1.0 = "set_title blog_store 2 ''A''"
      and ?d1.0 = ?once and pre = "[]" and mid = "[NL]" and rest = "[NL] @ ''Body text''"
      and ?ws1.0 = "[]" and ?ws2.0 = "'' ''" and x = "''A''" and ?ws3.0 = "[]"
      and ?v1.0 = "[]" and ?v2.0 = "'' ''" and y = "''D''" and ?v3.0 = "[]"]
  from T [THEN conjunct1] first h
  have second: "preprocess_md blog_state (set_title blog_store 2 ''A'') 2 ?once
          = (set_title blog_store 2 ''A'', Inr (Ok ?once))"
    by blast
  note F0 = T [THEN conjunct2, rule_format, OF nb]
  note f0 = F0 [THEN conjunct1]
  note F = F0 [THEN conjunct2]
  from F [THEN conjunct1] w(1) have f1: "same_twice blog_state blog_store 2
     ([] @ directive [] ''title'' '' '' ''A'' [] @ [NL] @ ''Body text'')
     (set_title blog_store 2 ''A'')
     (strip (toc_step (''# '' @ ''A'' @ [NL] @ [] @ [NL] @ ''Body text'')))" by blast
  from F [THEN conjunct2, THEN conjunct1] w(2) have f2: "same_twice blog_state blog_store 2
     ([] @ directive [] ''desc'' '' '' ''D'' [] @ [NL] @ ''Body text'')
     (set_desc blog_store 2 ''D'')
     (strip (toc_step ([] @ [NL] @ ''Body text'')))" by blast
  from F [THEN conjunct2, THEN conjunct2, THEN conjunct1] w(3) w(2)
  have f3: "same_twice blog_state blog_store 2
     ([] @ directive [] ''title'' '' '' ''A'' [] @ [NL]
        @ directive [] ''desc'' '' '' ''D'' [] @ [NL] @ ''Body text'')
     (set_desc (set_title blog_store 2 ''A'') 2 ''D'')
     (strip (toc_step (''# '' @ ''A'' @ [NL] @ [] @ [NL] @ [NL] @ ''Body text'')))" by blast
  from F [THEN conjunct2, THEN conjunct2, THEN conjunct2] w(4) w(1)
  have f4: "same_twice blog_state blog_store 2
     ([] @ directive [] ''desc'' '' '' ''D'' [] @ [NL]
        @ directive [] ''title'' '' '' ''A'' [] @ [NL] @ ''Body text'')
     (set_desc (set_title blog_store 2 ''A'') 2 ''D'')
     (strip (toc_step (''# '' @ ''A'' @ [NL] @ [] @ [NL] @ [NL] @ ''Body text'')))" by blast
  from first h second nb w f0 f1 f2 f3 f4 e show ?thesis by (intro conjI)
qed

subsection \<open>The posts directive\<close>

lemma foldl_append_concat: "foldl (\<lambda>acc p. acc @ f p) s ps = s @ concat (map f ps)"
  by (induction ps arbitrary: s) auto

lemma posts_html_concat:
  "posts_html st h =
     ''<div class='' @ [DQ] @ ''posts'' @ [DQ] @ ''>'' @
     concat (map (\<lambda>p. post_entry (h ! p)) (posts st)) @ ''</div>''"
  by (simp add: posts_html_def foldl_append_concat)

lemma re_search_skip_brace:
  "CHR ''{'' \<notin> set pre \<Longrightarrow> s \<noteq> [] \<Longrightarrow>
   re_search (Lit ''{{'' # r) (pre @ s) = re_search (Lit ''{{'' # r) s"
  by (induction pre) auto

lemma match_posts_directive:
  assumes "spaces ws1" "spaces ws2"
  shows "re_match posts_pat (posts_directive ws1 ws2 @ rest)
           = Some (length (posts_directive ws1 ws2), None)"
proof -
  have a: "re_match [Lit ''}}''] (''}}'' @ rest) = Some (2, None)" by simp
  have b: "re_match [Star Space, Lit ''}}''] (ws2 @ ''}}'' @ rest) = Some (length ws2 + 2, None)"
    using star_skip [of ws2 Space "''}}'' @ rest" "[Lit ''}}'']" 2 None] assms(2) a
    by (simp add: spaces_def)
  have c: "re_match [Lit ''posts'', Star Space, Lit ''}}''] (''posts'' @ ws2 @ ''}}'' @ rest)
             = Some (5 + (length ws2 + 2), None)"
    using lit_match [OF b, of "''posts''"] by simp
  have d: "re_match [Star Space, Lit ''posts'', Star Space, Lit ''}}'']
             (ws1 @ ''posts'' @ ws2 @ ''}}'' @ rest)
             = Some (length ws1 + (5 + (length ws2 + 2)), None)"
    using star_skip [OF _ _ c, of ws1 Space] assms(1) by (simp add: spaces_def)
  have "re_match posts_pat (''{{'' @ ws1 @ ''posts'' @ ws2 @ ''}}'' @ rest)
             = Some (2 + (length ws1 + (5 + (length ws2 + 2))), None)"
    unfolding posts_pat_def using lit_match [OF d, of "''{{''"] by simp
  then show ?thesis by (simp add: posts_directive_def)
qed

lemma re_search_posts_directive:
  assumes "CHR ''{'' \<notin> set pre" "spaces ws1" "spaces ws2"
  shows "re_search posts_pat (pre @ posts_directive ws1 ws2 @ rest)
           = Some (posts_directive ws1 ws2, None)"
proof -
  let ?d = "posts_directive ws1 ws2"
  have ne: "?d \<noteq> []" by (simp add: posts_directive_def)
  then obtain c cs where dc: "?d @ rest = c # cs" by (cases "?d @ rest") auto
  have "re_search posts_pat (pre @ ?d @ rest) = re_search posts_pat (?d @ rest)"
    unfolding posts_pat_def using assms(1) ne by (intro re_search_skip_brace) auto
  also have "\<dots> = Some (take (length ?d) (?d @ rest), None)"
    using match_posts_directive [OF assms(2,3), of rest] unfolding dc by simp
  finally show ?thesis by simp
qed

lemma has_posts_directive:
  "ws1 = [] \<or> ws1 = '' '' \<Longrightarrow> has_posts (pre @ posts_directive ws1 ws2 @ rest)"
  unfolding has_posts_def posts_directive_def py_in_sublist sublist_def
  apply (erule disjE)
   apply (rule disjI2, rule exI [of _ pre], simp)
  apply (rule disjI1, rule exI [of _ pre], simp)
  done

lemma posts_step_directive:
  assumes "CHR ''{'' \<notin> set pre" "ws1 = [] \<or> ws1 = '' ''" "spaces ws2"
  shows "posts_step st h (pre @ posts_directive ws1 ws2 @ rest)
           = Inr (pre @ posts_html st h @ replace rest (posts_directive ws1 ws2) (posts_html st h))"
proof -
  let ?d = "posts_directive ws1 ws2"
  have ne: "?d \<noteq> []" and hd: "hd ?d = CHR ''{''" by (simp_all add: posts_directive_def)
  have m: "re_search posts_pat (pre @ ?d @ rest) = Some (?d, None)"
    using assms spaces_lead [OF assms(2)] by (intro re_search_posts_directive) auto
  have r: "replace (pre @ ?d @ rest) ?d (posts_html st h)
             = pre @ posts_html st h @ replace rest ?d (posts_html st h)"
    using assms(1) ne by (simp add: replace_skip hd replace_here)
  show ?thesis
    using has_posts_directive [OF assms(2)] m r by (simp add: posts_step_def posts_fn_def)
qed

lemma replace_md_suffix:
  "\<not> py_in ''.md'' stem \<Longrightarrow> replace (stem @ ''.md'') ''.md'' ''.html'' = stem @ ''.html''"
proof (induction stem)
  case Nil
  show ?case by code_simp
next
  case (Cons c stem)
  then have np: "\<not> prefix ''.md'' (c # stem)" and ih: "replace (stem @ ''.md'') ''.md'' ''.html'' = stem @ ''.html''"
    by auto
  have "\<not> prefix ''.md'' (c # stem @ ''.md'')"
  proof (cases stem)
    case Nil
    then show ?thesis by simp
  next
    case (Cons c1 s1)
    then show ?thesis using np by (cases s1) auto
  qed
  then have "replace (c # stem @ ''.md'') ''.md'' ''.html'' = c # replace (stem @ ''.md'') ''.md'' ''.html''"
    by (intro replace_Cons_noprefix) simp_all
  with ih show ?case by simp
qed

lemma find_slash: "CHR ''/'' \<notin> set root \<Longrightarrow> find (root @ CHR ''/'' # rel) ''/'' = int (length root)"
  by (induction root) auto

lemma post_url_root:
  assumes "CHR ''/'' \<notin> set root"
  shows "post_url (root @ ''/'' @ rel) = ''/'' @ replace rel ''.md'' ''.html''"
proof -
  have "slice_from (root @ ''/'' @ rel) (find (root @ ''/'' @ rel) ''/'') = ''/'' @ rel"
    by (simp add: find_slash [OF assms] slice_from_def)
  moreover have "replace (CHR ''/'' # rel) ''.md'' ''.html'' = CHR ''/'' # replace rel ''.md'' ''.html''"
    by (intro replace_Cons_noprefix) simp_all
  ultimately show ?thesis by (simp add: post_url_def)
qed

text \<open>
  What the posts step puts in place of a posts directive with no blank or one blank after
  the braces, after text without a brace: the container around one entry for each
  reference in \<open>state.posts\<close>, in the order of the list, each made from the path, title
  and description of that post alone. For a root without a slash, \<open>post_url\<close> is the path
  with the root stripped and \<open>.md\<close> replaced by \<open>.html\<close>.
\<close>

lemma posts_fragment:
  assumes "CHR ''{'' \<notin> set pre" "ws1 = [] \<or> ws1 = '' ''" "spaces ws2"
    and "doc = pre @ posts_directive ws1 ws2 @ rest"
  shows "posts_step st h doc
           = Inr (pre @ posts_html st h @ replace rest (posts_directive ws1 ws2) (posts_html st h)) \<and>
         posts_html st h =
           ''<div class='' @ [DQ] @ ''posts'' @ [DQ] @ ''>'' @
           concat (map (\<lambda>p. post_entry (h ! p)) (posts st)) @ ''</div>'' \<and>
         post_entry f =
           ''<div class='' @ [DQ] @ ''post'' @ [DQ] @ ''>'' @ [NL] @
           ''<div class='' @ [DQ] @ ''post-heading'' @ [DQ] @ ''>'' @ [NL] @
           ''<a href='' @ [DQ] @ post_url (path f) @ [DQ] @ ''>'' @
             title (metadata f) @ ''</a>'' @ [NL] @
           ''</div>'' @ [NL] @
           ''<div class='' @ [DQ] @ ''post-desc'' @ [DQ] @ ''>'' @ [NL] @
           desc (metadata f) @ [NL] @
           ''</div>'' @ [NL] @
           ''</div>'' @ [NL] \<and>
         (CHR ''/'' \<notin> set root \<longrightarrow>
            post_url (root @ ''/'' @ rel) = ''/'' @ replace rel ''.md'' ''.html'') \<and>
         (CHR ''/'' \<notin> set root \<and> \<not> py_in ''.md'' stem \<longrightarrow>
            post_url (root @ ''/'' @ stem @ ''.md'') = ''/'' @ stem @ ''.html'') \<and>
         post_url ''root/sub/post.md'' = ''/sub/post.html''"
proof -
  have a: "posts_step st h doc
           = Inr (pre @ posts_html st h @ replace rest (posts_directive ws1 ws2) (posts_html st h))"
    unfolding assms(4) using assms(1-3) by (rule posts_step_directive)
  have b: "CHR ''/'' \<notin> set root \<longrightarrow>
            post_url (root @ ''/'' @ rel) = ''/'' @ replace rel ''.md'' ''.html''"
    using post_url_root [of root rel] by blast
  have c: "CHR ''/'' \<notin> set root \<and> \<not> py_in ''.md'' stem \<longrightarrow>
            post_url (root @ ''/'' @ stem @ ''.md'') = ''/'' @ stem @ ''.html''"
    using post_url_root [of root "stem @ ''.md''"] replace_md_suffix [of stem] by simp
  have d: "post_url ''root/sub/post.md'' = ''/sub/post.html''" by code_simp
  from a b c d show ?thesis
    using posts_html_concat [of st h] by (simp add: post_entry_def)
qed

lemma posts_fragment_instance:
  "CHR ''{'' \<notin> set ''Posts: '' \<and> spaces '' '' \<and>
   CHR ''/'' \<notin> set ''site'' \<and> \<not> py_in ''.md'' ''posts/a'' \<and>
   posts_step blog_state (set_title blog_store 1 ''B'') (''Posts: {{ posts }}'')
     = Inr (''Posts: '' @ posts_html blog_state (set_title blog_store 1 ''B'')) \<and>
   posts_html blog_state (set_title blog_store 1 ''B'') =
     ''<div class='' @ [DQ] @ ''posts'' @ [DQ] @ ''>'' @
     post_entry (new_File ''site/posts/a.md'' True) @
     post_entry ((new_File ''site/posts/b.md'' True)\<lparr>metadata := \<lparr>title = ''B'', desc = []\<rparr>\<rparr>) @
     ''</div>'' \<and>
   post_url (''site'' @ ''/'' @ ''posts/a'' @ ''.md'') = ''/posts/a.html''"
proof -
  let ?h = "set_title blog_store 1 ''B''"
  have h1: "CHR ''{'' \<notin> set ''Posts: ''" by simp
  have h2: "spaces '' ''" by (simp add: spaces_def isspace_def)
  have h3: "CHR ''/'' \<notin> set ''site''" by simp
  have h4: "\<not> py_in ''.md'' ''posts/a''" by code_simp
  have doc: "''Posts: {{ posts }}'' = ''Posts: '' @ posts_directive '' '' '' '' @ []"
    by (simp add: posts_directive_def)
  have e: "replace [] (posts_directive '' '' '' '') (posts_html blog_state ?h) = []"
    by (subst replace.simps) (simp add: posts_directive_def)
  have f: "map (\<lambda>p. post_entry (?h ! p)) (posts blog_state)
             = [post_entry (new_File ''site/posts/a.md'' True),
                post_entry ((new_File ''site/posts/b.md'' True)\<lparr>metadata := \<lparr>title = ''B'', desc = []\<rparr>\<rparr>)]"
    by (simp add: blog_state_def blog_store_def set_title_def new_File_def)
  have lead: "'' '' = [] \<or> '' '' = '' ''" by simp
  note T = posts_fragment [OF h1 lead h2 doc, of blog_state ?h "new_File [] True" "''site''" "[]" "''posts/a''"]
  have p1: "posts_step blog_state ?h (''Posts: {{ posts }}'') = Inr (''Posts: '' @ posts_html blog_state ?h)"
    using T [THEN conjunct1] by (simp only: e append_Nil2)
  have p2: "posts_html blog_state ?h =
          ''<div class='' @ [DQ] @ ''posts'' @ [DQ] @ ''>'' @
          post_entry (new_File ''site/posts/a.md'' True) @
          post_entry ((new_File ''site/posts/b.md'' True)\<lparr>metadata := \<lparr>title = ''B'', desc = []\<rparr>\<rparr>) @
          ''</div>''"
    using T [THEN conjunct2, THEN conjunct1] by (simp only: f concat.simps append_Nil2 append_assoc)
  have p3: "post_url (''site'' @ ''/'' @ ''posts/a'' @ ''.md'') = ''/posts/a.html''"
    using T [THEN conjunct2, THEN conjunct2, THEN conjunct2, THEN conjunct2, THEN conjunct1] h3 h4
    by simp
  from h1 h2 h3 h4 p1 p2 p3 show ?thesis by (intro conjI)
qed

text \<open>
  C2. A run for the source directory \<open>./site\<close>: \<open>build_file_tree\<close> gives the post the
  path \<open>./site/posts/a.md\<close>, and \<open>post_url\<close> cuts it at its first slash, which is the one
  inside the root. The text of the page after \<open>preprocess_pages\<close> is the fragment with
  one entry, whose href is \<open>/site/posts/a.html\<close>: the root is not stripped.
  \<open>write_files\<close> does strip it, and writes the post to \<open>out//posts/a.html\<close>.
\<close>

theorem posts_href_keeps_root:
  "build_file_tree ''./site'' ''./site'' dot_config None dot_fs = Inr (Ok dot_tree) \<and>
   process_pages dot_world new_State [] dot_tree = (dot_state, dot_store, None) \<and>
   post_url ''./site/posts/a.md'' = ''/site/posts/a.html'' \<and>
   preprocess_pages dot_state dot_store dot_tree
     = (set_md dot_store 0 (one_entry ''/site/posts/a.html''), None) \<and>
   compile_files dot_world dot_state (set_md dot_store 0 (one_entry ''/site/posts/a.html''))
     = (set_html (set_html (set_md dot_store 0 (one_entry ''/site/posts/a.html''))
                    0 (one_entry ''/site/posts/a.html'')) 1 ''Text'', None) \<and>
   write_files dot_state
       (set_html (set_html (set_md dot_store 0 (one_entry ''/site/posts/a.html''))
                    0 (one_entry ''/site/posts/a.html'')) 1 ''Text'')
       ''./site'' ''out''
     = [Mkdir ''out/'', Write ''out//index.html'' (one_entry ''/site/posts/a.html''),
        Mkdir ''out//posts'', Write ''out//posts/a.html'' ''Text'']"
  by code_simp

subsection \<open>The order of \<open>preprocess_pages\<close>\<close>

lemma preprocess_each_append:
  "preprocess_each st h (xs @ ys) =
     (case preprocess_each st h xs of
        (h1, Some e) \<Rightarrow> (h1, Some e)
      | (h1, None) \<Rightarrow> preprocess_each st h1 ys)"
  by (induction xs arbitrary: h) (auto split: prod.splits sum.splits option.splits)

lemma nth_set_title: "b \<noteq> a \<Longrightarrow> set_title h a x ! b = h ! b"
  by (simp add: set_title_def)

lemma nth_set_desc: "b \<noteq> a \<Longrightarrow> set_desc h a x ! b = h ! b"
  by (simp add: set_desc_def)

lemma nth_set_md: "b \<noteq> a \<Longrightarrow> set_md h a x ! b = h ! b"
  by (simp add: set_md_def)

lemma title_step_frame: "title_step h a doc = (h1, r) \<Longrightarrow> b \<noteq> a \<Longrightarrow> h1 ! b = h ! b"
  by (auto simp: title_step_def title_fn_def nth_set_title split: if_splits option.splits)

lemma desc_step_frame: "desc_step h a doc = (h1, r) \<Longrightarrow> b \<noteq> a \<Longrightarrow> h1 ! b = h ! b"
  by (auto simp: desc_step_def desc_fn_def nth_set_desc split: if_splits option.splits)

lemma preprocess_md_frame:
  "preprocess_md st h a doc = (h1, r) \<Longrightarrow> b \<noteq> a \<Longrightarrow> h1 ! b = h ! b"
  by (auto simp: preprocess_md_def split: prod.splits sum.splits)
     (metis title_step_frame desc_step_frame)+

lemma preprocess_each_frame:
  "preprocess_each st h xs = (h1, r) \<Longrightarrow> b \<notin> set xs \<Longrightarrow> h1 ! b = h ! b"
proof (induction xs arbitrary: h)
  case Nil
  then show ?case by simp
next
  case (Cons p xs)
  obtain h2 r2 where m: "preprocess_md st h p (md (h ! p)) = (h2, r2)"
    by (cases "preprocess_md st h p (md (h ! p))")
  from Cons.prems(2) have bp: "b \<noteq> p" and bx: "b \<notin> set xs" by auto
  from preprocess_md_frame [OF m bp] have f: "h2 ! b = h ! b" .
  show ?case
  proof (cases r2)
    case (Inl e)
    with Cons.prems(1) m f show ?thesis by simp
  next
    case (Inr res)
    show ?thesis
    proof (cases res)
      case (Ok d)
      with Cons.prems(1) m Inr have "preprocess_each st (set_md h2 p d) xs = (h1, r)" by simp
      from Cons.IH [OF this bx] f bp show ?thesis by (simp add: nth_set_md)
    next
      case (Err e)
      with Cons.prems(1) m Inr f show ?thesis by simp
    qed
  qed
qed

lemma post_entry_blank:
  "metadata f = \<lparr>title = [], desc = []\<rparr> \<Longrightarrow> post_entry f = blank_entry (path f)"
  by (simp add: post_entry_def blank_entry_def)

lemma posts_html_cong:
  "\<forall>p \<in> set (posts st). h ! p = h' ! p \<Longrightarrow> posts_html st h = posts_html st h'"
proof -
  assume "\<forall>p \<in> set (posts st). h ! p = h' ! p"
  then have "map (\<lambda>p. post_entry (h ! p)) (posts st) = map (\<lambda>p. post_entry (h' ! p)) (posts st)"
    by (intro map_cong) auto
  then have "concat (map (\<lambda>p. post_entry (h ! p)) (posts st))
               = concat (map (\<lambda>p. post_entry (h' ! p)) (posts st))"
    by (rule arg_cong)
  then show ?thesis by (simp only: posts_html_concat)
qed

text \<open>
  C1. \<open>preprocess_pages\<close> is the pass over \<open>state.posts\<close> followed by the pass over
  \<open>state.static_pages\<close>, the second started in the store the first has left; when a
  post raises, no page is preprocessed. In a run (the tree built, the state loaded, the
  files read), every page is preprocessed in a store in which each post is as the pass
  over the posts left it, so the fragment of its posts directive is the one made from the
  preprocessed posts.
\<close>

theorem preprocess_pages_posts_first:
  "preprocess_pages st h tree =
     (case preprocess_each st h (posts st) of
        (h1, Some e) \<Rightarrow> (h1, Some e)
      | (h1, None) \<Rightarrow> preprocess_each st h1 (static_pages st)) \<and>
   (build_file_tree dir root config None node = Inr (Ok tree) \<and>
    load_before_after_files w root config new_State = (st0, None) \<and>
    process_pages w st0 [] tree = (st, h, None) \<and>
    preprocess_each st h (posts st) = (h1, None) \<and>
    static_pages st = us @ q # vs \<and> preprocess_each st h1 us = (hq, None) \<longrightarrow>
      preprocess_pages st h tree = preprocess_each st hq (q # vs) \<and>
      (\<forall>p \<in> set (posts st). hq ! p = h1 ! p) \<and>
      posts_html st hq = posts_html st h1)"
proof (intro conjI impI)
  show first: "preprocess_pages st h tree =
     (case preprocess_each st h (posts st) of
        (h1, Some e) \<Rightarrow> (h1, Some e)
      | (h1, None) \<Rightarrow> preprocess_each st h1 (static_pages st))"
    unfolding preprocess_pages_def by (rule preprocess_each_append)
  assume a: "build_file_tree dir root config None node = Inr (Ok tree) \<and>
    load_before_after_files w root config new_State = (st0, None) \<and>
    process_pages w st0 [] tree = (st, h, None) \<and>
    preprocess_each st h (posts st) = (h1, None) \<and>
    static_pages st = us @ q # vs \<and> preprocess_each st h1 us = (hq, None)"
  then have "addresses_ok st h" using pipeline_addresses_ok by blast
  then have dist: "distinct (posts st @ static_pages st)" by (simp add: addresses_ok_def)
  from a first have "preprocess_pages st h tree = preprocess_each st h1 (us @ q # vs)"
    by simp
  with a show "preprocess_pages st h tree = preprocess_each st hq (q # vs)"
    by (simp add: preprocess_each_append [of st h1 us])
  from a have us: "preprocess_each st h1 us = (hq, None)" by simp
  from a dist have disj: "\<forall>p \<in> set (posts st). p \<notin> set us" by auto
  show same: "\<forall>p \<in> set (posts st). hq ! p = h1 ! p"
    using preprocess_each_frame [OF us] disj by blast
  then show "posts_html st hq = posts_html st h1" by (rule posts_html_cong)
qed

theorem preprocess_pages_posts_first_witness:
  "build_file_tree ''site'' ''site'' with_header None run_fs = Inr (Ok run_tree) \<and>
   load_before_after_files run_world ''site'' with_header new_State = (new_State, None) \<and>
   process_pages run_world new_State [] run_tree = (run_state, run_store, None) \<and>
   preprocess_each run_state run_store (posts run_state) = (run_posts_done, None) \<and>
   static_pages run_state = [] @ 0 # [] \<and>
   preprocess_each run_state run_posts_done [] = (run_posts_done, None) \<and>
   preprocess_pages run_state run_store run_tree = preprocess_each run_state run_posts_done [0] \<and>
   title (metadata (run_posts_done ! 2)) = ''B'' \<and>
   md (fst (preprocess_pages run_state run_store run_tree) ! 0)
     = posts_html run_state run_posts_done"
proof -
  have a: "preprocess_each run_state run_store (posts run_state) = (run_posts_done, None)"
    by code_simp
  have b: "static_pages run_state = [] @ 0 # []" by (simp add: run_state_def)
  have d: "preprocess_each run_state run_posts_done [] = (run_posts_done, None)" by simp
  have e: "title (metadata (run_posts_done ! 2)) = ''B''" by code_simp
  have f: "md (fst (preprocess_each run_state run_posts_done [0]) ! 0)
             = posts_html run_state run_posts_done"
    by code_simp
  from preprocess_pages_posts_first [of run_state run_store run_tree "''site''" "''site''"
         with_header run_fs run_world new_State run_posts_done "[]" 0 "[]" run_posts_done]
       run_pipeline a b d
  have g: "preprocess_pages run_state run_store run_tree
             = preprocess_each run_state run_posts_done [0]"
    by blast
  from run_pipeline a b d e f g show ?thesis by simp
qed

subsection \<open>A posts directive inside a post\<close>

lemma later_posts_blank_store:
  assumes "posts st = xs @ a # ys" "distinct (posts st)"
    and "\<forall>b \<in> set ys. metadata (h ! b) = \<lparr>title = [], desc = []\<rparr>"
    and "preprocess_each st h xs = (h1, None)"
    and "title_step h1 a (md (h1 ! a)) = (h2, Inr d1)" "desc_step h2 a d1 = (h3, Inr d2)"
    and "has_posts d2" "re_search posts_pat d2 = Some (m0, g)"
    and "out = strip (toc_step (replace d2 m0 (posts_html st h3)))"
  shows "preprocess_md st h1 a (md (h1 ! a)) = (h3, Inr (Ok out)) \<and>
         preprocess_pages st h tree = preprocess_each st (set_md h3 a out) (ys @ static_pages st) \<and>
         posts_html st h3 =
           ''<div class='' @ [DQ] @ ''posts'' @ [DQ] @ ''>'' @
           concat (map (\<lambda>p. post_entry (h3 ! p)) (xs @ [a])) @
           concat (map (\<lambda>b. blank_entry (path (h ! b))) ys) @ ''</div>'' \<and>
         (\<forall>b \<in> set ys. h3 ! b = h ! b \<and>
                       title (metadata (h3 ! b)) = [] \<and> desc (metadata (h3 ! b)) = [])"
proof -
  have md: "preprocess_md st h1 a (md (h1 ! a)) = (h3, Inr (Ok out))"
    using assms(5-9) by (simp add: preprocess_md_def posts_step_def posts_fn_def)
  have "preprocess_pages st h tree = preprocess_each st h1 (a # ys @ static_pages st)"
    using assms(1,4) preprocess_each_append [of st h xs "a # ys @ static_pages st"]
    by (simp add: preprocess_pages_def)
  with md have pages: "preprocess_pages st h tree
                         = preprocess_each st (set_md h3 a out) (ys @ static_pages st)"
    by simp
  have later: "h3 ! b = h ! b" if "b \<in> set ys" for b
  proof -
    from that assms(1,2) have "b \<notin> set xs" "b \<noteq> a" by auto
    with preprocess_each_frame [OF assms(4)] title_step_frame [OF assms(5)]
      desc_step_frame [OF assms(6)]
    show ?thesis by simp
  qed
  with assms(3) have blank: "\<forall>b \<in> set ys. h3 ! b = h ! b \<and>
                       title (metadata (h3 ! b)) = [] \<and> desc (metadata (h3 ! b)) = []"
    by simp
  have "map (\<lambda>p. post_entry (h3 ! p)) ys = map (\<lambda>b. blank_entry (path (h ! b))) ys"
  proof (rule map_cong [OF refl])
    fix b assume "b \<in> set ys"
    with later assms(3) show "post_entry (h3 ! b) = blank_entry (path (h ! b))"
      by (simp add: post_entry_blank)
  qed
  then have "concat (map (\<lambda>p. post_entry (h3 ! p)) ys)
               = concat (map (\<lambda>b. blank_entry (path (h ! b))) ys)"
    by (rule arg_cong)
  then have html: "posts_html st h3 =
           ''<div class='' @ [DQ] @ ''posts'' @ [DQ] @ ''>'' @
           concat (map (\<lambda>p. post_entry (h3 ! p)) (xs @ [a])) @
           concat (map (\<lambda>b. blank_entry (path (h ! b))) ys) @ ''</div>''"
    by (simp add: posts_html_concat assms(1))
  from md pages html blank show ?thesis by (intro conjI)
qed

text \<open>
  C10. In a run, the posts list is \<open>xs\<close>, then the post at \<open>a\<close>, then \<open>ys\<close>. When the
  pass over \<open>xs\<close> has gone through and the text of \<open>a\<close> holds a posts directive after
  its title and desc steps, the fragment is made from the store of that moment, in which
  the posts of \<open>ys\<close> are untouched: their entries have an empty title and an empty
  description. \<open>preprocess_pages\<close> goes on with \<open>ys\<close> and the pages after that.
\<close>

theorem later_posts_blank:
  assumes "build_file_tree dir root config None node = Inr (Ok tree)"
    and "load_before_after_files w root config new_State = (st0, None)"
    and "process_pages w st0 [] tree = (st, h, None)"
    and "posts st = xs @ a # ys"
    and "preprocess_each st h xs = (h1, None)"
    and "title_step h1 a (md (h1 ! a)) = (h2, Inr d1)" "desc_step h2 a d1 = (h3, Inr d2)"
    and "has_posts d2" "re_search posts_pat d2 = Some (m0, g)"
    and "out = strip (toc_step (replace d2 m0 (posts_html st h3)))"
  shows "preprocess_md st h1 a (md (h1 ! a)) = (h3, Inr (Ok out)) \<and>
         preprocess_pages st h tree = preprocess_each st (set_md h3 a out) (ys @ static_pages st) \<and>
         posts_html st h3 =
           ''<div class='' @ [DQ] @ ''posts'' @ [DQ] @ ''>'' @
           concat (map (\<lambda>p. post_entry (h3 ! p)) (xs @ [a])) @
           concat (map (\<lambda>b. blank_entry (path (h ! b))) ys) @ ''</div>'' \<and>
         (\<forall>b \<in> set ys. h3 ! b = h ! b \<and>
                       title (metadata (h3 ! b)) = [] \<and> desc (metadata (h3 ! b)) = [])"
proof -
  from pipeline_addresses_ok [OF assms(1-3)] have ok: "addresses_ok st h" .
  then have dist: "distinct (posts st)" by (simp add: addresses_ok_def)
  have fresh: "\<forall>b \<in> set ys. metadata (h ! b) = \<lparr>title = [], desc = []\<rparr>"
  proof
    fix b assume "b \<in> set ys"
    with assms(4) have "b \<in> set (posts st @ static_pages st)" by simp
    with ok have "b < length h" by (simp add: addresses_ok_def)
    then have "h ! b \<in> set h" by simp
    with ok show "metadata (h ! b) = \<lparr>title = [], desc = []\<rparr>" by (simp add: addresses_ok_def)
  qed
  from assms(4) dist fresh assms(5-10) show ?thesis by (rule later_posts_blank_store)
qed

theorem later_posts_blank_witness:
  "build_file_tree ''site'' ''site'' with_header None run_fs = Inr (Ok run_tree) \<and>
   load_before_after_files run_world ''site'' with_header new_State = (new_State, None) \<and>
   process_pages run_world new_State [] run_tree = (run_state, run_store, None) \<and>
   posts run_state = [] @ 1 # [2] \<and>
   md (run_store ! 1) = ''{{posts}}'' \<and> md (run_store ! 2) = title_B \<and>
   has_posts ''{{posts}}'' \<and>
   preprocess_md run_state run_store 1 (md (run_store ! 1))
     = (run_store, Inr (Ok (posts_html run_state run_store))) \<and>
   posts_html run_state run_store =
     ''<div class='' @ [DQ] @ ''posts'' @ [DQ] @ ''>'' @
     blank_entry ''site/posts/a.md'' @ blank_entry ''site/posts/b.md'' @ ''</div>'' \<and>
   title (metadata (fst (preprocess_pages run_state run_store run_tree) ! 2)) = ''B'' \<and>
   md (fst (preprocess_pages run_state run_store run_tree) ! 1) = posts_html run_state run_store"
proof -
  have a1: "posts run_state = [] @ 1 # [2]" by (simp add: run_state_def)
  have a4: "preprocess_each run_state run_store [] = (run_store, None)" by simp
  have m1: "md (run_store ! 1) = ''{{posts}}''" and m2: "md (run_store ! 2) = title_B"
    by (simp_all add: run_store_def)
  have a5: "title_step run_store 1 (md (run_store ! 1)) = (run_store, Inr ''{{posts}}'')"
    unfolding m1 title_step_def by code_simp
  have a6: "desc_step run_store 1 ''{{posts}}'' = (run_store, Inr ''{{posts}}'')"
    unfolding desc_step_def by code_simp
  have a7: "has_posts ''{{posts}}''" by code_simp
  have a8: "re_search posts_pat ''{{posts}}'' = Some (''{{posts}}'', None)" by code_simp
  have out: "posts_html run_state run_store
               = strip (toc_step (replace ''{{posts}}'' ''{{posts}}'' (posts_html run_state run_store)))"
    by code_simp
  note T = later_posts_blank [OF run_pipeline a1 a4 a5 a6 a7 a8 out]
  have p1: "preprocess_md run_state run_store 1 (md (run_store ! 1))
              = (run_store, Inr (Ok (posts_html run_state run_store)))"
    using T [THEN conjunct1] .
  have e: "run_store ! Suc 0 = (new_File ''site/posts/a.md'' True)\<lparr>md := ''{{posts}}''\<rparr>"
    "run_store ! 2 = (new_File ''site/posts/b.md'' True)\<lparr>md := title_B\<rparr>"
    by (simp_all add: run_store_def)
  have p2: "posts_html run_state run_store =
     ''<div class='' @ [DQ] @ ''posts'' @ [DQ] @ ''>'' @
     blank_entry ''site/posts/a.md'' @ blank_entry ''site/posts/b.md'' @ ''</div>''"
    using T [THEN conjunct2, THEN conjunct2, THEN conjunct1]
    by (simp add: e post_entry_blank new_File_def)
  have p3: "title (metadata (fst (preprocess_pages run_state run_store run_tree) ! 2)) = ''B''"
    by code_simp
  have p4: "md (fst (preprocess_pages run_state run_store run_tree) ! 1)
              = posts_html run_state run_store"
    by code_simp
  from run_pipeline a1 m1 m2 a7 p1 p2 p3 p4 show ?thesis by simp
qed

end
